theory Spec2Isabelle
  imports Main "HOL-Library.Sublist"
begin

section \<open>Python values used by the sync engine\<close>

text \<open>
  An exception is a value. The scheduler only ever looks at \<open>str(e)\<close>, so each
  constructor carries the message text.
\<close>

datatype py_exc =
    ValueError string
  | KeyError string
  | OverflowError string
  | RemoteError string
  | StoreError string
  | TypeError string
  | AttributeError string

fun exc_str :: "py_exc \<Rightarrow> string" where
  "exc_str (ValueError m) = m"
| "exc_str (KeyError m) = m"
| "exc_str (OverflowError m) = m"
| "exc_str (RemoteError m) = m"
| "exc_str (StoreError m) = m"
| "exc_str (TypeError m) = m"
| "exc_str (AttributeError m) = m"

text \<open>Truthiness of an optional string: \<open>None\<close> and \<open>""\<close> are falsy.\<close>

fun truthy_str :: "string option \<Rightarrow> bool" where
  "truthy_str None = False"
| "truthy_str (Some s) = (s \<noteq> [])"

text \<open>Truthiness of an optional boolean (a missing key reads as \<open>None\<close>).\<close>

fun truthy_bool :: "bool option \<Rightarrow> bool" where
  "truthy_bool None = False"
| "truthy_bool (Some b) = b"

text \<open>\<open>sub in s\<close> on strings.\<close>

fun str_contains :: "string \<Rightarrow> string \<Rightarrow> bool" where
  "str_contains sub [] = (sub = [])"
| "str_contains sub (c # cs) = (prefix sub (c # cs) \<or> str_contains sub cs)"

text \<open>\<open>s.replace("Z", "+00:00")\<close>: every occurrence is replaced.\<close>

fun replace_Z :: "string \<Rightarrow> string" where
  "replace_Z [] = []"
| "replace_Z (c # cs) = (if c = CHR ''Z'' then ''+00:00'' @ replace_Z cs else c # replace_Z cs)"

text \<open>\<open>s.split(":")\<close>.\<close>

fun split_colon :: "string \<Rightarrow> string list" where
  "split_colon [] = [[]]"
| "split_colon (c # cs) =
     (if c = CHR '':'' then [] # split_colon cs
      else (case split_colon cs of
              [] \<Rightarrow> [[c]]
            | p # ps \<Rightarrow> (c # p) # ps))"

definition is_digit :: "char \<Rightarrow> bool" where
  "is_digit c = (48 \<le> (of_char c :: nat) \<and> (of_char c :: nat) \<le> 57)"

definition digit_val :: "char \<Rightarrow> nat" where
  "digit_val c = (of_char c :: nat) - 48"

text \<open>A non-empty run of ASCII digits, read in base ten.\<close>

definition digits_val :: "string \<Rightarrow> nat option" where
  "digits_val s =
     (if s \<noteq> [] \<and> list_all is_digit s
      then Some (foldl (\<lambda>acc c. 10 * acc + digit_val c) 0 s)
      else None)"

definition is_space :: "char \<Rightarrow> bool" where
  "is_space c = (c \<in> set [CHR '' '', CHR 0x09, CHR 0x0A, CHR 0x0B, CHR 0x0C, CHR 0x0D])"

definition strip :: "string \<Rightarrow> string" where
  "strip s = rev (dropWhile is_space (rev (dropWhile is_space s)))"

text \<open>
  The digit part of an integer literal: digits with single underscores between them.
\<close>

fun int_digits :: "string \<Rightarrow> nat option" where
  "int_digits s =
     (if s = [] \<or> hd s = CHR ''_'' \<or> last s = CHR ''_'' \<or> str_contains ''__'' s then None
      else digits_val (filter (\<lambda>c. c \<noteq> CHR ''_'') s))"

text \<open>
  \<open>int(s)\<close> on an ASCII string: surrounding whitespace, an optional sign, then
  digits. \<open>None\<close> is the \<open>ValueError\<close>.
\<close>

definition py_int :: "string \<Rightarrow> int option" where
  "py_int s =
     (case strip s of
        [] \<Rightarrow> None
      | c # cs \<Rightarrow>
          if c = CHR ''-'' then map_option (\<lambda>n. - int n) (int_digits cs)
          else if c = CHR ''+'' then map_option int (int_digits cs)
          else map_option int (int_digits (c # cs)))"

text \<open>Two-digit, zero-padded decimal (\<open>%H\<close>, \<open>%M\<close>, \<open>%m\<close>, \<open>%d\<close>).\<close>

definition digit_char :: "nat \<Rightarrow> char" where
  "digit_char n = char_of (48 + n mod 10)"

definition pad2 :: "nat \<Rightarrow> string" where
  "pad2 n = [digit_char (n div 10), digit_char n]"

definition pad4 :: "nat \<Rightarrow> string" where
  "pad4 n = [digit_char (n div 1000), digit_char (n div 100), digit_char (n div 10), digit_char n]"

section \<open>Dates and times\<close>

text \<open>
  A naive \<open>datetime\<close> with its calendar fields. Instants that are only compared and
  shifted (\<open>updatedAt\<close>, \<open>lastSyncedAt\<close>, \<open>lastCalendarSync\<close>, \<open>utcnow()\<close>) are kept as
  the number of microseconds since 1970-01-01T00:00:00, which orders them as Python does.
\<close>

record datetime =
  year :: nat
  month :: nat
  day :: nat
  hour :: nat
  minute :: nat
  second :: nat
  microsecond :: nat

type_synonym timestamp = int

definition is_leap :: "nat \<Rightarrow> bool" where
  "is_leap y = (y mod 4 = 0 \<and> (y mod 100 \<noteq> 0 \<or> y mod 400 = 0))"

definition days_in_month :: "nat \<Rightarrow> nat \<Rightarrow> nat" where
  "days_in_month y m =
     (if m = 2 then (if is_leap y then 29 else 28)
      else if m \<in> set [4, 6, 9, 11] then 30 else 31)"

definition valid_datetime :: "datetime \<Rightarrow> bool" where
  "valid_datetime d =
     (1 \<le> year d \<and> year d \<le> 9999 \<and> 1 \<le> month d \<and> month d \<le> 12 \<and>
      1 \<le> day d \<and> day d \<le> days_in_month (year d) (month d) \<and>
      hour d < 24 \<and> minute d < 60 \<and> second d < 60 \<and> microsecond d < 1000000)"

text \<open>Days since 1970-01-01 in the proleptic Gregorian calendar, and back.\<close>

definition days_from_civil :: "nat \<Rightarrow> nat \<Rightarrow> nat \<Rightarrow> int" where
  "days_from_civil y m d =
     (let y' = int y - (if m \<le> 2 then 1 else 0);
          era = y' div 400;
          yoe = y' - era * 400;
          mp = (if m > 2 then int m - 3 else int m + 9);
          doy = (153 * mp + 2) div 5 + int d - 1;
          doe = yoe * 365 + yoe div 4 - yoe div 100 + doy
      in era * 146097 + doe - 719468)"

definition civil_from_days :: "int \<Rightarrow> nat \<times> nat \<times> nat" where
  "civil_from_days z0 =
     (let z = z0 + 719468;
          era = z div 146097;
          doe = z - era * 146097;
          yoe = (doe - doe div 1460 + doe div 36524 - doe div 146096) div 365;
          y = yoe + era * 400;
          doy = doe - (365 * yoe + yoe div 4 - yoe div 100);
          mp = (5 * doy + 2) div 153;
          d = doy - (153 * mp + 2) div 5 + 1;
          m = (if mp < 10 then mp + 3 else mp - 9)
      in (nat (y + (if m \<le> 2 then 1 else 0)), nat m, nat d))"

definition to_micros :: "datetime \<Rightarrow> timestamp" where
  "to_micros d =
     (((days_from_civil (year d) (month d) (day d) * 24 + int (hour d)) * 60
        + int (minute d)) * 60 + int (second d)) * 1000000 + int (microsecond d)"

definition from_micros :: "timestamp \<Rightarrow> datetime" where
  "from_micros t =
     (let us = t mod 1000000; s = t div 1000000;
          sec = s mod 60; mi = s div 60;
          minu = mi mod 60; h = mi div 60;
          hr = h mod 24; dys = h div 24;
          (y, m, d) = civil_from_days dys
      in \<lparr> year = y, month = m, day = d, hour = nat hr, minute = nat minu,
           second = nat sec, microsecond = nat us \<rparr>)"

text \<open>\<open>dt.strftime("%Y-%m-%d")\<close> and \<open>dt.strftime("%H:%M")\<close>.\<close>

definition strftime_date :: "datetime \<Rightarrow> string" where
  "strftime_date d = pad4 (year d) @ ''-'' @ pad2 (month d) @ ''-'' @ pad2 (day d)"

definition strftime_HM :: "datetime \<Rightarrow> string" where
  "strftime_HM d = pad2 (hour d) @ '':'' @ pad2 (minute d)"

text \<open>\<open>dt.replace(hour=0, minute=0, second=0, microsecond=0, tzinfo=None)\<close>.\<close>

definition midnight :: "datetime \<Rightarrow> datetime" where
  "midnight d = d\<lparr> hour := 0, minute := 0, second := 0, microsecond := 0 \<rparr>"

subsection \<open>Parsing\<close>

text \<open>
  \<open>datetime.fromisoformat\<close>, on the strings a calendar feed sends:
  \<open>YYYY-MM-DD\<close>, then optionally one separator character and \<open>HH:MM\<close>,
  \<open>HH:MM:SS\<close>, \<open>HH:MM:SS.fff\<close> or \<open>HH:MM:SS.ffffff\<close>, then optionally an offset
  \<open>+HH:MM\<close> or \<open>-HH:MM\<close>. The result is the naive fields and the offset in minutes, if
  any. Every other string is the \<open>ValueError\<close>.
\<close>

definition two_digits :: "string \<Rightarrow> nat option" where
  "two_digits s = (if length s = 2 then digits_val s else None)"

definition parse_date :: "string \<Rightarrow> (nat \<times> nat \<times> nat) option" where
  "parse_date s =
     (if length s = 10 \<and> s ! 4 = CHR ''-'' \<and> s ! 7 = CHR ''-'' then
        (case (digits_val (take 4 s), two_digits (take 2 (drop 5 s)), two_digits (drop 8 s)) of
           (Some y, Some m, Some d) \<Rightarrow> Some (y, m, d)
         | _ \<Rightarrow> None)
      else None)"

definition parse_fraction :: "string \<Rightarrow> nat option" where
  "parse_fraction s =
     (if length s = 3 then map_option (\<lambda>n. n * 1000) (digits_val s)
      else if length s = 6 then digits_val s
      else None)"

definition parse_clock :: "string \<Rightarrow> (nat \<times> nat \<times> nat \<times> nat) option" where
  "parse_clock s =
     (if length s = 5 \<and> s ! 2 = CHR '':'' then
        (case (two_digits (take 2 s), two_digits (drop 3 s)) of
           (Some h, Some m) \<Rightarrow> Some (h, m, 0, 0)
         | _ \<Rightarrow> None)
      else if length s \<ge> 8 \<and> s ! 2 = CHR '':'' \<and> s ! 5 = CHR '':'' then
        (case (two_digits (take 2 s), two_digits (take 2 (drop 3 s)),
               two_digits (take 2 (drop 6 s))) of
           (Some h, Some m, Some sec) \<Rightarrow>
             (if length s = 8 then Some (h, m, sec, 0)
              else if s ! 8 = CHR ''.'' then
                map_option (\<lambda>us. (h, m, sec, us)) (parse_fraction (drop 9 s))
              else None)
         | _ \<Rightarrow> None)
      else None)"

definition parse_offset :: "string \<Rightarrow> int option" where
  "parse_offset s =
     (if length s = 6 \<and> (hd s = CHR ''+'' \<or> hd s = CHR ''-'') \<and> s ! 3 = CHR '':'' then
        (case (two_digits (take 2 (drop 1 s)), two_digits (drop 4 s)) of
           (Some h, Some m) \<Rightarrow>
             (if h < 24 \<and> m < 60
              then Some ((if hd s = CHR ''-'' then -1 else 1) * (int h * 60 + int m))
              else None)
         | _ \<Rightarrow> None)
      else None)"

text \<open>Where the offset starts in the time part: at the first \<open>+\<close> or \<open>-\<close>.\<close>

definition split_offset :: "string \<Rightarrow> string \<times> string" where
  "split_offset s =
     (takeWhile (\<lambda>c. c \<noteq> CHR ''+'' \<and> c \<noteq> CHR ''-'') s,
      dropWhile (\<lambda>c. c \<noteq> CHR ''+'' \<and> c \<noteq> CHR ''-'') s)"

definition invalid_isoformat :: "string \<Rightarrow> py_exc" where
  "invalid_isoformat s = ValueError (''Invalid isoformat string: '' @ s)"

definition fromisoformat :: "string \<Rightarrow> py_exc + (datetime \<times> int option)" where
  "fromisoformat s =
     (case parse_date (take 10 s) of
        None \<Rightarrow> Inl (invalid_isoformat s)
      | Some (y, m, d) \<Rightarrow>
          (let rest = drop 10 s;
               (clock_s, off_s) = (if rest = [] then ([], []) else split_offset (drop 1 rest));
               clock = (if rest = [] then Some (0, 0, 0, 0) else parse_clock clock_s);
               off = (if off_s = [] then Some None else map_option Some (parse_offset off_s))
           in case (clock, off) of
                (Some (h, mi, sec, us), Some tz) \<Rightarrow>
                  (let dt = \<lparr> year = y, month = m, day = d, hour = h, minute = mi,
                              second = sec, microsecond = us \<rparr>
                   in if valid_datetime dt then Inr (dt, tz) else Inl (invalid_isoformat s))
              | _ \<Rightarrow> Inl (invalid_isoformat s)))"

text \<open>
  \<open>datetime.strptime(s, "%Y-%m-%d")\<close> on the zero-padded form the calendar service
  sends for all-day events; every other string is the \<open>ValueError\<close>.
\<close>

definition strptime_date :: "string \<Rightarrow> py_exc + datetime" where
  "strptime_date s =
     (case parse_date s of
        None \<Rightarrow> Inl (ValueError (''time data does not match format %Y-%m-%d: '' @ s))
      | Some (y, m, d) \<Rightarrow>
          (let dt = \<lparr> year = y, month = m, day = d, hour = 0, minute = 0,
                      second = 0, microsecond = 0 \<rparr>
           in if valid_datetime dt then Inr dt
              else Inl (ValueError (''time data does not match format %Y-%m-%d: '' @ s))))"

subsection \<open>Time zones\<close>

text \<open>
  The zone database is the \<open>pytz\<close> package, which is not part of the repository; it is a
  parameter. A zone gives the offset from UTC, in minutes, in force at a UTC instant
  (what \<open>fromutc\<close> uses) and the offset that \<open>localize\<close> attaches to a naive local
  time. \<open>tz_lookup\<close> is \<open>pytz.timezone\<close>, with \<open>None\<close> for \<open>UnknownTimeZoneError\<close>;
  \<open>system_local\<close> is the zone of the host, which \<open>astimezone\<close> assumes for a naive
  value.
\<close>

record tzinfo =
  utcoffset_at_utc :: "timestamp \<Rightarrow> int"
  utcoffset_at_local :: "timestamp \<Rightarrow> int"

record tzenv =
  tz_lookup :: "string \<Rightarrow> tzinfo option"
  system_local :: tzinfo

definition tz_UTC :: tzinfo where
  "tz_UTC = \<lparr> utcoffset_at_utc = (\<lambda>_. 0), utcoffset_at_local = (\<lambda>_. 0) \<rparr>"

definition minutes_us :: "int \<Rightarrow> int" where
  "minutes_us m = m * 60000000"

text \<open>An aware datetime: naive local fields and the offset from UTC in minutes.\<close>

type_synonym aware = "datetime \<times> int"

definition localize :: "tzinfo \<Rightarrow> datetime \<Rightarrow> aware" where
  "localize tz d = (d, utcoffset_at_local tz (to_micros d))"

definition astimezone :: "tzinfo \<Rightarrow> aware \<Rightarrow> aware" where
  "astimezone tz a =
     (let utc = to_micros (fst a) - minutes_us (snd a);
          off = utcoffset_at_utc tz utc
      in (from_micros (utc + minutes_us off), off))"

record preferences =
  timezone :: "string option"

text \<open>\<open>routes/calendar.py: convert_event_time_to_user_tz\<close>.\<close>

definition user_tz_str :: "preferences \<Rightarrow> string" where
  "user_tz_str prefs = (case timezone prefs of None \<Rightarrow> ''UTC'' | Some z \<Rightarrow> z)"

definition count_char :: "char \<Rightarrow> string \<Rightarrow> nat" where
  "count_char c s = length (filter (\<lambda>x. x = c) s)"

definition convert_event_time_to_user_tz ::
    "tzenv \<Rightarrow> string \<Rightarrow> preferences \<Rightarrow> py_exc + (datetime \<times> string)" where
  "convert_event_time_to_user_tz tzs time_str user_preferences =
     (let user_tz = (case tz_lookup tzs (user_tz_str user_preferences) of
                       Some z \<Rightarrow> z
                     | None \<Rightarrow> tz_UTC);
          parsed =
            (if time_str \<noteq> [] \<and> last time_str = CHR ''Z'' then
               fromisoformat (replace_Z time_str)
             else if CHR ''+'' \<in> set time_str
                     \<or> (count_char CHR ''-'' time_str > 2 \<and> CHR ''T'' \<in> set time_str) then
               fromisoformat time_str
             else
               (case fromisoformat time_str of
                  Inl e \<Rightarrow> Inl e
                | Inr (naive_dt, Some m) \<Rightarrow>
                    Inl (ValueError ''Not naive datetime (tzinfo is already set)'')
                | Inr (naive_dt, None) \<Rightarrow>
                    Inr (naive_dt, Some (snd (localize user_tz naive_dt)))))
      in case parsed of
           Inl e \<Rightarrow> Inl e
         | Inr (d, off) \<Rightarrow>
             (let dt_utc = (case off of
                              Some m \<Rightarrow> (d, m)
                            | None \<Rightarrow> localize (system_local tzs) d);
                  dt_user = fst (astimezone user_tz dt_utc)
              in Inr (midnight dt_user, strftime_HM dt_user)))"

section \<open>Documents\<close>

text \<open>
  A key of a document that may be missing, hold \<open>None\<close>, or hold a value. A key that is
  only ever read with \<open>d.get(k)\<close>, which cannot tell the first two apart, is kept as an
  \<open>option\<close>. A key that is read with a default, \<open>d.get(k, default)\<close>, is a \<open>field\<close>:
  the default stands in for a missing key, and a stored \<open>None\<close> is returned as it is.
\<close>

datatype 'a field = Absent | Null | Val 'a

fun field_get :: "'a field \<Rightarrow> 'a option" where
  "field_get (Val v) = Some v"
| "field_get _ = None"

text \<open>\<open>d.get(k, default)\<close>: the default stands in for a missing key only.\<close>

fun field_get_default :: "'a field \<Rightarrow> 'a \<Rightarrow> 'a option" where
  "field_get_default Absent d = Some d"
| "field_get_default Null d = None"
| "field_get_default (Val v) d = Some v"

text \<open>What \<open>{"$set": {k: v}}\<close> leaves under the key: \<open>None\<close> is stored as such.\<close>

fun stored :: "'a option \<Rightarrow> 'a field" where
  "stored None = Null"
| "stored (Some v) = Val v"

record reminder_cfg =
  enabled :: "bool option"
  notifyMobile :: "bool field"
  minutesBefore :: "int field"

text \<open>The empty dict \<open>{}\<close> that stands in for a missing \<open>reminder\<close>.\<close>

definition no_reminder :: reminder_cfg where
  "no_reminder = \<lparr> enabled = None, notifyMobile = Absent, minutesBefore = Absent \<rparr>"

record task =
  task_id :: nat
  user :: nat
  title :: "string field"
  description :: "string field"
  list_ref :: "nat option"
  dueDate :: "datetime option"
  dueTime :: "string option"
  priority :: "string option"
  status :: "string option"
  tags :: "string list"
  reminder :: "reminder_cfg field"
  googleEventId :: "string option"
  googleCalendarId :: "string field"
  googleCalendarColor :: "string option"
  syncedWithGoogle :: bool
  syncToCalendar :: "bool option"
  lastSyncedAt :: "timestamp option"
  createdAt :: "timestamp option"
  updatedAt :: "timestamp option"

record user_doc =
  user_id :: nat
  googleAccessToken :: "string option"
  googleRefreshToken :: "string option"
  googleTokenExpiry :: "timestamp option"
  googleSelectedCalendars :: "string list option"
  lastCalendarSync :: "timestamp option"
  preferences :: "preferences option"

record list_doc =
  list_id :: nat
  list_user :: nat
  list_name :: string

text \<open>The remote service's event resource and the body sent on insert and update.\<close>

record gtime =
  dateTime :: "string option"
  date :: "string option"
  timeZone :: "string option"

record gevent =
  ev_id :: "string option"
  summary :: "string field"
  ev_description :: "string field"
  start :: "gtime option"
  updated :: "string option"
  colorId :: "string option"

record reminders_override =
  useDefault :: bool
  overrides :: "(string \<times> int option) list"

record event_body =
  b_summary :: "string option"
  b_description :: string
  b_start :: gtime
  b_end :: gtime
  b_reminders :: "reminders_override option"
  b_colorId :: string

record api_event =
  resp_id :: "string option"
  htmlLink :: "string option"

section \<open>Task to event: \<open>build_google_calendar_event\<close>\<close>

definition is_lower :: "char \<Rightarrow> bool" where
  "is_lower c = (97 \<le> (of_char c :: nat) \<and> (of_char c :: nat) \<le> 122)"

definition is_upper :: "char \<Rightarrow> bool" where
  "is_upper c = (65 \<le> (of_char c :: nat) \<and> (of_char c :: nat) \<le> 90)"

definition to_upper :: "char \<Rightarrow> char" where
  "to_upper c = (if is_lower c then char_of ((of_char c :: nat) - 32) else c)"

definition to_lower :: "char \<Rightarrow> char" where
  "to_lower c = (if is_upper c then char_of ((of_char c :: nat) + 32) else c)"

text \<open>\<open>s.title()\<close> on ASCII; the flag says whether the previous character was a letter.\<close>

fun title_from :: "bool \<Rightarrow> string \<Rightarrow> string" where
  "title_from prev [] = []"
| "title_from prev (c # cs) =
     (if is_lower c \<or> is_upper c
      then (if prev then to_lower c else to_upper c) # title_from True cs
      else c # title_from False cs)"

definition str_title :: "string \<Rightarrow> string" where
  "str_title s = title_from False s"

text \<open>\<open>', '.join(xs)\<close>.\<close>

fun join_comma :: "string list \<Rightarrow> string" where
  "join_comma [] = []"
| "join_comma [x] = x"
| "join_comma (x # y # ys) = x @ '', '' @ join_comma (y # ys)"

text \<open>The icons and the clipboard sign, as their UTF-8 bytes.\<close>

definition clipboard_icon :: string where
  "clipboard_icon = [CHR 0xF0, CHR 0x9F, CHR 0x93, CHR 0x8B]"

definition priority_icons :: "string \<Rightarrow> string" where
  "priority_icons p =
     (if p = ''low'' then [CHR 0xF0, CHR 0x9F, CHR 0x9F, CHR 0xA2]
      else if p = ''medium'' then [CHR 0xF0, CHR 0x9F, CHR 0x9F, CHR 0xA1]
      else if p = ''high'' then [CHR 0xF0, CHR 0x9F, CHR 0x94, CHR 0xB4]
      else [])"

definition priority_colors :: "string option \<Rightarrow> string" where
  "priority_colors p =
     (if p = Some ''high'' then ''11''
      else if p = Some ''medium'' then ''5''
      else if p = Some ''low'' then ''10''
      else if p = Some ''none'' then ''7''
      else ''7'')"

text \<open>
  The description text. A stored \<open>None\<close> passes \<open>if description:\<close> as falsy and then
  fails at \<open>description += ...\<close>.
\<close>

definition none_plus_str :: string where
  "none_plus_str = ''unsupported operand type(s) for +=: '' @ [CHR 0x27] @ ''NoneType''
                     @ [CHR 0x27] @ '' and '' @ [CHR 0x27] @ ''str'' @ [CHR 0x27]"

definition event_description :: "task \<Rightarrow> py_exc + string" where
  "event_description t =
     (case field_get_default (description t) [] of
        None \<Rightarrow> Inl (TypeError none_plus_str)
      | Some d0 \<Rightarrow>
          (let d1 = (if d0 \<noteq> [] then d0 @ [CHR 0x0A, CHR 0x0A] @ ''---'' @ [CHR 0x0A] else d0);
               d2 = d1 @ clipboard_icon @ '' Created in NovaDo'' @ [CHR 0x0A];
               d3 = (case priority t of
                       None \<Rightarrow> d2
                     | Some p \<Rightarrow>
                         if p \<noteq> [] \<and> p \<noteq> ''none''
                         then d2 @ ''Priority: '' @ priority_icons p @ '' '' @ str_title p
                                @ [CHR 0x0A]
                         else d2)
           in Inr (if tags t \<noteq> [] then d3 @ ''Tags: '' @ join_comma (tags t) @ [CHR 0x0A]
                   else d3)))"

text \<open>\<open>dt.isoformat()\<close> of an aware value whose microsecond is zero.\<close>

definition offset_str :: "int \<Rightarrow> string" where
  "offset_str off =
     (if off < 0 then ''-'' else ''+'') @ pad2 (nat \<bar>off\<bar> div 60) @ '':'' @ pad2 (nat \<bar>off\<bar> mod 60)"

definition isoformat_aware :: "aware \<Rightarrow> string" where
  "isoformat_aware a =
     strftime_date (fst a) @ ''T'' @ pad2 (hour (fst a)) @ '':'' @ pad2 (minute (fst a))
       @ '':'' @ pad2 (second (fst a)) @ offset_str (snd a)"

text \<open>\<open>hours, minutes = map(int, due_time.split(":"))\<close>.\<close>

definition parse_due_time :: "string \<Rightarrow> py_exc + (int \<times> int)" where
  "parse_due_time due_time =
     (case split_colon due_time of
        [a, b] \<Rightarrow>
          (case (py_int a, py_int b) of
             (Some h, Some m) \<Rightarrow> Inr (h, m)
           | _ \<Rightarrow> Inl (ValueError (''invalid literal for int() with base 10: '' @ due_time)))
      | _ \<Rightarrow> Inl (ValueError ''wrong number of values to unpack''))"

text \<open>
  The reminders of the event, \<open>None\<close> when the key is not set. The three reads are
  \<open>task.get("reminder", {})\<close>, \<open>reminder.get("enabled") and
  reminder.get("notifyMobile", True)\<close> and \<open>reminder.get("minutesBefore", 30)\<close>: a
  \<open>reminder\<close> that holds \<open>None\<close> has no \<open>get\<close>, a \<open>notifyMobile\<close> that holds \<open>None\<close>
  is falsy, and a \<open>minutesBefore\<close> that holds \<open>None\<close> is passed on as \<open>None\<close>.
\<close>

definition none_has_no_get :: string where
  "none_has_no_get = [CHR 0x27] @ ''NoneType'' @ [CHR 0x27] @ '' object has no attribute ''
                       @ [CHR 0x27] @ ''get'' @ [CHR 0x27]"

definition reminders_of :: "task \<Rightarrow> py_exc + reminders_override option" where
  "reminders_of t =
     (case field_get_default (reminder t) no_reminder of
        None \<Rightarrow> Inl (AttributeError none_has_no_get)
      | Some r \<Rightarrow>
          Inr (if truthy_bool (enabled r) \<and> truthy_bool (field_get_default (notifyMobile r) True)
               then Some \<lparr> useDefault = False,
                           overrides = [(''popup'', field_get_default (minutesBefore r) 30)] \<rparr>
               else None))"

definition build_google_calendar_event ::
    "tzenv \<Rightarrow> task \<Rightarrow> preferences \<Rightarrow> py_exc + event_body" where
  "build_google_calendar_event tzs t user_preferences =
     (let tz_str = user_tz_str user_preferences;
          summary = field_get_default (title t) ''Untitled Task''
      in case event_description t of
           Inl ex \<Rightarrow> Inl ex
         | Inr event_text \<Rightarrow>
      (case dueDate t of
           None \<Rightarrow> Inl (ValueError ''Task must have a dueDate to sync to calendar'')
         | Some due_date \<Rightarrow>
             (let times =
                (if \<not> truthy_str (dueTime t) then
                   Inr (\<lparr> dateTime = None, date = Some (strftime_date due_date),
                           timeZone = None \<rparr>,
                        \<lparr> dateTime = None, date = Some (strftime_date due_date),
                           timeZone = None \<rparr>)
                 else
                   (let user_tz = (case tz_lookup tzs tz_str of
                                     Some z \<Rightarrow> z
                                   | None \<Rightarrow> tz_UTC)
                    in case parse_due_time (the (dueTime t)) of
                         Inl e \<Rightarrow> Inl e
                       | Inr (hours, minutes) \<Rightarrow>
                           if hours < 0 \<or> 23 < hours \<or> minutes < 0 \<or> 59 < minutes
                           then Inl (ValueError ''hour or minute out of range'')
                           else
                             (let naive_dt = \<lparr> year = year due_date, month = month due_date,
                                               day = day due_date, hour = nat hours,
                                               minute = nat minutes, second = 0,
                                               microsecond = 0 \<rparr>;
                                  start_dt = localize user_tz naive_dt;
                                  end_naive = from_micros (to_micros naive_dt + 3600000000)
                              in if 9999 < year end_naive
                                 then Inl (OverflowError ''date value out of range'')
                                 else Inr (\<lparr> dateTime = Some (isoformat_aware start_dt),
                                             date = None, timeZone = Some tz_str \<rparr>,
                                           \<lparr> dateTime =
                                               Some (isoformat_aware (end_naive, snd start_dt)),
                                             date = None, timeZone = Some tz_str \<rparr>))))
              in case times of
                   Inl e \<Rightarrow> Inl e
                 | Inr (st, en) \<Rightarrow>
                     (case reminders_of t of
                        Inl ex \<Rightarrow> Inl ex
                      | Inr rem \<Rightarrow>
                          Inr \<lparr> b_summary = summary, b_description = event_text,
                                b_start = st, b_end = en,
                                b_reminders = rem,
                                b_colorId = priority_colors (priority t) \<rparr>))))"

section \<open>The store and the outside world\<close>

text \<open>
  Everything the engine exchanges with the outside is recorded, most recent first: each
  reading of the clock and each call of the remote calendar client with its outcome.
  The outside world is a parameter: it answers each request as a function of the
  exchanges so far, so the same call may be answered differently at different times.
\<close>

datatype io =
    Now timestamp
  | ListEvents string timestamp timestamp "py_exc + gevent list"
  | InsertEvent string event_body "py_exc + api_event"
  | UpdateEvent "string option" string event_body "py_exc + api_event"

record env =
  env_utcnow :: "io list \<Rightarrow> timestamp"
  env_list :: "io list \<Rightarrow> string \<Rightarrow> timestamp \<Rightarrow> timestamp \<Rightarrow> py_exc + gevent list"
  env_insert :: "io list \<Rightarrow> string \<Rightarrow> event_body \<Rightarrow> py_exc + api_event"
  env_update :: "io list \<Rightarrow> string option \<Rightarrow> string \<Rightarrow> event_body \<Rightarrow> py_exc + api_event"
  env_store_fault :: "io list \<Rightarrow> nat \<Rightarrow> py_exc option"
  env_expired :: "timestamp \<Rightarrow> bool"
  env_refresh :: "user_doc \<Rightarrow> py_exc + (string \<times> string option)"
  env_tz :: tzenv

text \<open>What the scheduler writes to its log: the outcome of each push, and each exception
  the pull phase catches for a calendar.\<close>

datatype log_entry =
    PushedTask nat string
  | PushError nat py_exc
  | PullError string py_exc
  | TokenRevoked py_exc

record state =
  users :: "user_doc list"
  tasks :: "task list"
  lists :: "list_doc list"
  trace :: "io list"
  log :: "log_entry list"

definition utcnow :: "env \<Rightarrow> state \<Rightarrow> timestamp \<times> state" where
  "utcnow e s = (let t = env_utcnow e (trace s) in (t, s\<lparr> trace := Now t # trace s \<rparr>))"

definition events_list ::
    "env \<Rightarrow> string \<Rightarrow> timestamp \<Rightarrow> timestamp \<Rightarrow> state \<Rightarrow> (py_exc + gevent list) \<times> state" where
  "events_list e cal tmin tmax s =
     (let r = env_list e (trace s) cal tmin tmax
      in (r, s\<lparr> trace := ListEvents cal tmin tmax r # trace s \<rparr>))"

definition events_insert ::
    "env \<Rightarrow> string \<Rightarrow> event_body \<Rightarrow> state \<Rightarrow> (py_exc + api_event) \<times> state" where
  "events_insert e cal body s =
     (let r = env_insert e (trace s) cal body
      in (r, s\<lparr> trace := InsertEvent cal body r # trace s \<rparr>))"

definition events_update ::
    "env \<Rightarrow> string option \<Rightarrow> string \<Rightarrow> event_body \<Rightarrow> state \<Rightarrow> (py_exc + api_event) \<times> state" where
  "events_update e cal eid body s =
     (let r = env_update e (trace s) cal eid body
      in (r, s\<lparr> trace := UpdateEvent cal eid body r # trace s \<rparr>))"

subsection \<open>Collections\<close>

text \<open>\<open>update_one({"_id": i}, {"$set": ...})\<close>: the first document with that id.\<close>

fun update_task :: "nat \<Rightarrow> (task \<Rightarrow> task) \<Rightarrow> task list \<Rightarrow> task list" where
  "update_task i f [] = []"
| "update_task i f (t # ts) = (if task_id t = i then f t # ts else t # update_task i f ts)"

fun update_user :: "nat \<Rightarrow> (user_doc \<Rightarrow> user_doc) \<Rightarrow> user_doc list \<Rightarrow> user_doc list" where
  "update_user i f [] = []"
| "update_user i f (u # us) = (if user_id u = i then f u # us else u # update_user i f us)"

text \<open>\<open>delete_one({"_id": i})\<close>.\<close>

fun delete_task :: "nat \<Rightarrow> task list \<Rightarrow> task list" where
  "delete_task i [] = []"
| "delete_task i (t # ts) = (if task_id t = i then ts else t # delete_task i ts)"

text \<open>\<open>find({"user": u})\<close> and \<open>find_one({"user": u, "googleEventId": e})\<close>.\<close>

definition find_user_tasks :: "nat \<Rightarrow> task list \<Rightarrow> task list" where
  "find_user_tasks u ts = filter (\<lambda>t. user t = u) ts"

definition find_task_by_event :: "nat \<Rightarrow> string \<Rightarrow> task list \<Rightarrow> task option" where
  "find_task_by_event u eid ts = find (\<lambda>t. user t = u \<and> googleEventId t = Some eid) ts"

definition find_inbox :: "nat \<Rightarrow> list_doc list \<Rightarrow> list_doc option" where
  "find_inbox u ls = find (\<lambda>l. list_user l = u \<and> list_name l = ''Inbox'') ls"

text \<open>A new \<open>ObjectId()\<close>: an id no document of the collection carries.\<close>

definition fresh_task_id :: "task list \<Rightarrow> nat" where
  "fresh_task_id ts = Suc (foldr max (map task_id ts) 0)"

section \<open>Push phase: \<open>scheduler.py: _push_to_google\<close>\<close>

datatype push_class = NoDueDate | CompletedDeleted | SyncDisabled | AlreadySynced | ToPush

text \<open>The classification of one task, in the order of the source's checks.\<close>

definition classify :: "task \<Rightarrow> push_class" where
  "classify t =
     (if dueDate t = None then NoDueDate
      else if status t \<in> {Some ''completed'', Some ''deleted'', Some ''skipped''}
        then CompletedDeleted
      else if \<not> truthy_bool (syncToCalendar t) then SyncDisabled
      else if \<not> truthy_str (googleEventId t) then ToPush
      else (case (updatedAt t, lastSyncedAt t) of
              (Some updated_at, Some last_synced) \<Rightarrow>
                if updated_at > last_synced then ToPush else AlreadySynced
            | _ \<Rightarrow> AlreadySynced))"

definition tasks_to_push :: "task list \<Rightarrow> task list" where
  "tasks_to_push all_tasks = filter (\<lambda>t. classify t = ToPush) all_tasks"

text \<open>
  The body of the loop for one candidate: everything inside \<open>try\<close>. An exception at any
  step is logged with the task's id and the counter is left as it was.
\<close>

definition push_bookkeeping :: "string \<Rightarrow> string \<Rightarrow> timestamp \<Rightarrow> task \<Rightarrow> task" where
  "push_bookkeeping eid calendar_id now t =
     t\<lparr> googleEventId := Some eid, googleCalendarId := Val calendar_id,
        syncedWithGoogle := True, lastSyncedAt := Some now \<rparr>"

definition push_task ::
    "env \<Rightarrow> preferences \<Rightarrow> string \<Rightarrow> task \<Rightarrow> state \<times> nat \<Rightarrow> state \<times> nat" where
  "push_task e user_preferences calendar_id t sc =
     (let s = fst sc; pushed_count = snd sc
      in case build_google_calendar_event (env_tz e) t user_preferences of
           Inl ex \<Rightarrow> (s\<lparr> log := PushError (task_id t) ex # log s \<rparr>, pushed_count)
         | Inr event_body \<Rightarrow>
             (let (r, s1) =
                (if truthy_str (googleEventId t)
                 then events_update e (field_get_default (googleCalendarId t) calendar_id)
                        (the (googleEventId t)) event_body s
                 else events_insert e calendar_id event_body s)
              in case r of
                   Inl ex \<Rightarrow> (s1\<lparr> log := PushError (task_id t) ex # log s1 \<rparr>, pushed_count)
                 | Inr event \<Rightarrow>
                     (case resp_id event of
                        None \<Rightarrow>
                          (s1\<lparr> log := PushError (task_id t) (KeyError ''id'') # log s1 \<rparr>,
                           pushed_count)
                      | Some eid \<Rightarrow>
                          (let (now, s2) = utcnow e s1
                           in case env_store_fault e (trace s2) (task_id t) of
                                Some ex \<Rightarrow>
                                  (s2\<lparr> log := PushError (task_id t) ex # log s2 \<rparr>,
                                   pushed_count)
                              | None \<Rightarrow>
                                  (s2\<lparr> tasks := update_task (task_id t)
                                                   (push_bookkeeping eid calendar_id now)
                                                   (tasks s2),
                                        log := PushedTask (task_id t) eid # log s2 \<rparr>,
                                   pushed_count + 1)))))"

fun push_loop ::
    "env \<Rightarrow> preferences \<Rightarrow> string \<Rightarrow> task list \<Rightarrow> state \<times> nat \<Rightarrow> state \<times> nat" where
  "push_loop e prefs calendar_id [] sc = sc"
| "push_loop e prefs calendar_id (t # ts) sc =
     push_loop e prefs calendar_id ts (push_task e prefs calendar_id t sc)"

definition push_to_google ::
    "env \<Rightarrow> user_doc \<Rightarrow> preferences \<Rightarrow> string \<Rightarrow> state \<Rightarrow> state \<times> nat" where
  "push_to_google e u user_preferences calendar_id s =
     (let all_tasks = find_user_tasks (user_id u) (tasks s)
      in push_loop e user_preferences calendar_id (tasks_to_push all_tasks) (s, 0))"

section \<open>Pull phase: \<open>scheduler.py: _pull_from_google\<close>\<close>

definition prefs_of :: "user_doc \<Rightarrow> preferences" where
  "prefs_of u = (case preferences u of None \<Rightarrow> \<lparr> timezone = None \<rparr> | Some p \<Rightarrow> p)"

text \<open>
  The start of an event as a due date and time; \<open>Inr None\<close> is the \<open>continue\<close> for an
  event with neither \<open>dateTime\<close> nor \<open>date\<close>.
\<close>

definition event_times ::
    "tzenv \<Rightarrow> preferences \<Rightarrow> gevent \<Rightarrow> py_exc + (datetime \<times> string option) option" where
  "event_times tzs user_preferences ev =
     (let st = (case start ev of
                  None \<Rightarrow> \<lparr> dateTime = None, date = None, timeZone = None \<rparr>
                | Some g \<Rightarrow> g)
      in if truthy_str (dateTime st) then
           (case convert_event_time_to_user_tz tzs (the (dateTime st)) user_preferences of
              Inl ex \<Rightarrow> Inl ex
            | Inr (due_date, due_time) \<Rightarrow> Inr (Some (due_date, Some due_time)))
         else if truthy_str (date st) then
           (case strptime_date (the (date st)) of
              Inl ex \<Rightarrow> Inl ex
            | Inr due_date \<Rightarrow> Inr (Some (due_date, None)))
         else Inr None)"

text \<open>
  \<open>datetime.fromisoformat(updated.replace("Z", "+00:00")).replace(tzinfo=None)\<close>: the
  offset is dropped, not applied.
\<close>

definition event_updated_at :: "gevent \<Rightarrow> py_exc + timestamp option" where
  "event_updated_at ev =
     (if truthy_str (updated ev) then
        (case fromisoformat (replace_Z (the (updated ev))) of
           Inl ex \<Rightarrow> Inl ex
         | Inr (d, off) \<Rightarrow> Inr (Some (to_micros d)))
      else Inr None)"

text \<open>\<open>event.get("summary", "Untitled")\<close> and \<open>event.get("description", "")\<close>.\<close>

definition event_title :: "gevent \<Rightarrow> string option" where
  "event_title ev = field_get_default (summary ev) ''Untitled''"

definition event_desc :: "gevent \<Rightarrow> string option" where
  "event_desc ev = field_get_default (ev_description ev) []"

definition pull_overwrite ::
    "gevent \<Rightarrow> datetime \<Rightarrow> string option \<Rightarrow> timestamp \<Rightarrow> task \<Rightarrow> task" where
  "pull_overwrite ev due_date due_time now t =
     t\<lparr> title := stored (event_title ev), description := stored (event_desc ev),
        dueDate := Some due_date, dueTime := due_time, lastSyncedAt := Some now \<rparr>"

definition new_task_from_event ::
    "nat \<Rightarrow> nat \<Rightarrow> nat option \<Rightarrow> string \<Rightarrow> string \<Rightarrow> gevent \<Rightarrow> datetime \<Rightarrow> string option
       \<Rightarrow> timestamp \<Rightarrow> timestamp \<Rightarrow> timestamp \<Rightarrow> task" where
  "new_task_from_event new_id user_oid inbox event_id calendar_id ev due_date due_time
       synced_at created_at updated_at =
     \<lparr> task_id = new_id, user = user_oid,
       title = stored (event_title ev), description = stored (event_desc ev),
       list_ref = inbox, dueDate = Some due_date, dueTime = due_time,
       priority = Some ''none'', status = Some ''scheduled'',
       tags = [''google-calendar''],
       reminder = Val \<lparr> enabled = Some False, notifyMobile = Absent, minutesBefore = Absent \<rparr>,
       googleEventId = Some event_id, googleCalendarId = Val calendar_id,
       googleCalendarColor = colorId ev,
       syncedWithGoogle = True, syncToCalendar = Some True,
       lastSyncedAt = Some synced_at, createdAt = Some created_at,
       updatedAt = Some updated_at \<rparr>"

text \<open>One turn of \<open>for event in events\<close>; \<open>Inl\<close> is an exception leaving the turn.\<close>

definition pull_event ::
    "env \<Rightarrow> user_doc \<Rightarrow> string \<Rightarrow> gevent \<Rightarrow> state \<times> nat \<Rightarrow> py_exc + (state \<times> nat)" where
  "pull_event e u calendar_id ev sc =
     (let s = fst sc; pulled_count = snd sc
      in if \<not> truthy_str (ev_id ev) then Inr sc
         else
           (let event_id = the (ev_id ev);
                existing_task = find_task_by_event (user_id u) event_id (tasks s)
            in case event_times (env_tz e) (prefs_of u) ev of
                 Inl ex \<Rightarrow> Inl ex
               | Inr None \<Rightarrow> Inr sc
               | Inr (Some (due_date, due_time)) \<Rightarrow>
                   (case event_updated_at ev of
                      Inl ex \<Rightarrow> Inl ex
                    | Inr event_updated \<Rightarrow>
                        (case existing_task of
                           Some t \<Rightarrow>
                             (case (event_updated, updatedAt t) of
                                (Some eu, Some tu) \<Rightarrow>
                                  if eu > tu then
                                    (let (now, s1) = utcnow e s
                                     in Inr (s1\<lparr> tasks := update_task (task_id t)
                                                   (pull_overwrite ev due_date due_time now)
                                                   (tasks s1) \<rparr>,
                                             pulled_count + 1))
                                  else Inr sc
                              | _ \<Rightarrow> Inr sc)
                         | None \<Rightarrow>
                             (let inbox = map_option list_id (find_inbox (user_id u) (lists s));
                                  (t1, s1) = utcnow e s;
                                  (t2, s2) = utcnow e s1;
                                  (t3, s3) = utcnow e s2;
                                  new_task = new_task_from_event (fresh_task_id (tasks s3))
                                               (user_id u) inbox event_id calendar_id ev
                                               due_date due_time t1 t2 t3
                              in Inr (s3\<lparr> tasks := tasks s3 @ [new_task] \<rparr>,
                                      pulled_count + 1))))))"

text \<open>The inner loop stops at the first exception, which the calendar's handler gets.\<close>

fun pull_events ::
    "env \<Rightarrow> user_doc \<Rightarrow> string \<Rightarrow> gevent list \<Rightarrow> state \<times> nat \<Rightarrow> py_exc option \<times> (state \<times> nat)" where
  "pull_events e u calendar_id [] sc = (None, sc)"
| "pull_events e u calendar_id (ev # evs) sc =
     (case pull_event e u calendar_id ev sc of
        Inl ex \<Rightarrow> (Some ex, sc)
      | Inr sc' \<Rightarrow> pull_events e u calendar_id evs sc')"

definition is_auth_error :: "string \<Rightarrow> bool" where
  "is_auth_error error_str =
     (str_contains ''invalid_grant'' error_str \<or> str_contains ''invalid_client'' error_str
      \<or> str_contains ''Token has been expired or revoked'' error_str)"

definition clear_revoked :: "user_doc \<Rightarrow> user_doc" where
  "clear_revoked u =
     u\<lparr> googleAccessToken := None, googleRefreshToken := None, googleTokenExpiry := None,
        googleSelectedCalendars := None \<rparr>"

text \<open>
  \<open>for calendar_id in selected_calendars\<close>. The flag is \<open>True\<close> when the handler took
  the early \<open>return\<close> of the revocation branch.
\<close>

fun pull_calendars ::
    "env \<Rightarrow> user_doc \<Rightarrow> timestamp \<Rightarrow> timestamp \<Rightarrow> string list \<Rightarrow> state \<times> nat
       \<Rightarrow> bool \<times> (state \<times> nat)" where
  "pull_calendars e u time_min time_max [] sc = (False, sc)"
| "pull_calendars e u time_min time_max (calendar_id # cals) sc =
     (let (r, s1) = events_list e calendar_id time_min time_max (fst sc);
          (raised, sc2) = (case r of
                             Inl ex \<Rightarrow> (Some ex, (s1, snd sc))
                           | Inr events \<Rightarrow> pull_events e u calendar_id events (s1, snd sc))
      in case raised of
           None \<Rightarrow> pull_calendars e u time_min time_max cals sc2
         | Some ex \<Rightarrow>
             if is_auth_error (exc_str ex)
             then (True, ((fst sc2)\<lparr> users := update_user (user_id u) clear_revoked
                                                (users (fst sc2)),
                                     log := TokenRevoked ex # log (fst sc2) \<rparr>, snd sc2))
             else pull_calendars e u time_min time_max cals
                    ((fst sc2)\<lparr> log := PullError calendar_id ex # log (fst sc2) \<rparr>, snd sc2))"

definition hours_us :: "int \<Rightarrow> int" where
  "hours_us h = h * 3600000000"

definition set_watermark :: "timestamp \<Rightarrow> user_doc \<Rightarrow> user_doc" where
  "set_watermark now u = u\<lparr> lastCalendarSync := Some now \<rparr>"

definition pull_from_google ::
    "env \<Rightarrow> user_doc \<Rightarrow> string list \<Rightarrow> state \<Rightarrow> bool \<times> (state \<times> nat)" where
  "pull_from_google e u selected_calendars s =
     (let (time_min, s1) =
            (case lastCalendarSync u of
               Some last_sync \<Rightarrow> (last_sync - hours_us 1, s)
             | None \<Rightarrow> (let (n, s') = utcnow e s in (n - hours_us 24, s')));
          (n2, s2) = utcnow e s1;
          time_max = n2 + hours_us (24 * 90);
          (aborted, sc3) = pull_calendars e u time_min time_max selected_calendars (s2, 0)
      in if aborted then (True, sc3)
         else (let (n3, s4) = utcnow e (fst sc3)
               in (False, (s4\<lparr> users := update_user (user_id u) (set_watermark n3) (users s4) \<rparr>,
                           snd sc3))))"

section \<open>Credentials and the per-user cycle\<close>

record credentials =
  token :: "string option"
  refresh_token :: "string option"
  expiry :: "timestamp option"

text \<open>
  \<open>Credentials(token=..., refresh_token=..., token_uri=..., client_id=...,
  client_secret=..., scopes=...)\<close>: the call passes no expiry, and \<open>googleTokenExpiry\<close>
  is not read.
\<close>

definition make_credentials :: "user_doc \<Rightarrow> credentials" where
  "make_credentials u =
     \<lparr> token = googleAccessToken u, refresh_token = googleRefreshToken u, expiry = None \<rparr>"

text \<open>
  \<open>creds.expired\<close>: credentials without an expiry are never expired; for the others the
  auth library compares the expiry with its own clock.
\<close>

definition expired :: "env \<Rightarrow> credentials \<Rightarrow> bool" where
  "expired e c = (case expiry c of None \<Rightarrow> False | Some x \<Rightarrow> env_expired e x)"

text \<open>
  \<open>routes/calendar.py: get_credentials_from_user\<close>. What the refresh answers belongs to
  the auth service. The write of a refreshed token is applied at once.
\<close>

definition get_credentials_from_user ::
    "env \<Rightarrow> user_doc \<Rightarrow> state \<Rightarrow> credentials option \<times> state" where
  "get_credentials_from_user e u s =
     (if \<not> truthy_str (googleAccessToken u) then (None, s)
      else
        (let creds = make_credentials u
         in if expired e creds \<and> truthy_str (refresh_token creds) then
              (case env_refresh e u of
                 Inl ex \<Rightarrow> (None, s)
               | Inr (tok, rtok) \<Rightarrow>
                   (Some (creds\<lparr> token := Some tok, refresh_token := rtok \<rparr>),
                    s\<lparr> users := update_user (user_id u)
                           (\<lambda>x. x\<lparr> googleAccessToken := Some tok, googleRefreshToken := rtok \<rparr>)
                           (users s) \<rparr>))
            else (Some creds, s)))"

definition clear_invalid_tokens :: "user_doc \<Rightarrow> user_doc" where
  "clear_invalid_tokens u =
     u\<lparr> googleAccessToken := None, googleRefreshToken := None, googleTokenExpiry := None \<rparr>"

text \<open>\<open>user.get("googleSelectedCalendars") or ["primary"]\<close>.\<close>

definition selected_or_primary :: "user_doc \<Rightarrow> string list" where
  "selected_or_primary u =
     (case googleSelectedCalendars u of
        None \<Rightarrow> [''primary'']
      | Some [] \<Rightarrow> [''primary'']
      | Some (c # cs) \<Rightarrow> c # cs)"

definition push_target :: "string list \<Rightarrow> string" where
  "push_target selected_calendars =
     (case selected_calendars of [] \<Rightarrow> ''primary'' | c # cs \<Rightarrow> c)"

text \<open>\<open>scheduler.py: _sync_user_calendar\<close>: the result and the state it leaves.\<close>

definition sync_user_calendar :: "env \<Rightarrow> user_doc \<Rightarrow> state \<Rightarrow> bool \<times> state" where
  "sync_user_calendar e u s =
     (let (creds, s0) = get_credentials_from_user e u s
      in case creds of
           None \<Rightarrow>
             (if truthy_str (googleAccessToken u)
              then (False, s0\<lparr> users := update_user (user_id u) clear_invalid_tokens (users s0) \<rparr>)
              else (False, s0))
         | Some c \<Rightarrow>
             (let selected_calendars = selected_or_primary u;
                  (aborted, sc1) = pull_from_google e u selected_calendars s0;
                  (s2, pushed) = push_to_google e u (prefs_of u)
                                   (push_target selected_calendars) (fst sc1)
              in (True, s2)))"

section \<open>Calendar selection: \<open>routes/calendar.py: select_calendars\<close>\<close>

definition deselected_calendars :: "user_doc \<Rightarrow> string list \<Rightarrow> string set" where
  "deselected_calendars current_user newly_selected =
     set (selected_or_primary current_user) - set newly_selected"

fun delete_deselected :: "string set \<Rightarrow> task list \<Rightarrow> task list \<times> nat \<Rightarrow> task list \<times> nat" where
  "delete_deselected desel [] acc = acc"
| "delete_deselected desel (t # ts) acc =
     (case field_get (googleCalendarId t) of
        Some c \<Rightarrow>
          if c \<in> desel
          then delete_deselected desel ts (delete_task (task_id t) (fst acc), snd acc + 1)
          else delete_deselected desel ts acc
      | None \<Rightarrow> delete_deselected desel ts acc)"

definition select_calendars :: "string list \<Rightarrow> user_doc \<Rightarrow> state \<Rightarrow> state \<times> nat" where
  "select_calendars newly_selected current_user s =
     (let desel = deselected_calendars current_user newly_selected;
          (ts, deleted_count) =
            (if desel \<noteq> {}
             then delete_deselected desel (find_user_tasks (user_id current_user) (tasks s))
                    (tasks s, 0)
             else (tasks s, 0))
      in (s\<lparr> tasks := ts,
             users := update_user (user_id current_user)
                        (\<lambda>x. x\<lparr> googleSelectedCalendars := Some newly_selected \<rparr>) (users s) \<rparr>,
          deleted_count))"

section \<open>Notions used in the statements\<close>

subsection \<open>Reading the log and the trace\<close>

fun push_attempt_of :: "log_entry \<Rightarrow> nat option" where
  "push_attempt_of (PushedTask i eid) = Some i"
| "push_attempt_of (PushError i ex) = Some i"
| "push_attempt_of _ = None"

fun is_pushed :: "log_entry \<Rightarrow> bool" where
  "is_pushed (PushedTask i eid) = True"
| "is_pushed _ = False"

fun is_push_error :: "log_entry \<Rightarrow> bool" where
  "is_push_error (PushError i ex) = True"
| "is_push_error _ = False"

text \<open>A remote write: an insert or an update.\<close>

fun is_write :: "io \<Rightarrow> bool" where
  "is_write (InsertEvent cal body r) = True"
| "is_write (UpdateEvent cal eid body r) = True"
| "is_write _ = False"

text \<open>What a run from \<open>s\<close> to \<open>s'\<close> added, oldest first.\<close>

definition log_since :: "state \<Rightarrow> state \<Rightarrow> log_entry list" where
  "log_since s s' = rev (take (length (log s') - length (log s)) (log s'))"

definition trace_since :: "state \<Rightarrow> state \<Rightarrow> io list" where
  "trace_since s s' = rev (take (length (trace s') - length (trace s)) (trace s'))"

definition find_task :: "nat \<Rightarrow> task list \<Rightarrow> task option" where
  "find_task i ts = find (\<lambda>t. task_id t = i) ts"

definition find_user :: "nat \<Rightarrow> user_doc list \<Rightarrow> user_doc option" where
  "find_user i us = find (\<lambda>u. user_id u = i) us"

definition builds :: "env \<Rightarrow> preferences \<Rightarrow> task \<Rightarrow> bool" where
  "builds e p t = (case build_google_calendar_event (env_tz e) t p of Inl ex \<Rightarrow> False | Inr b \<Rightarrow> True)"

fun is_revoked_entry :: "log_entry \<Rightarrow> bool" where
  "is_revoked_entry (TokenRevoked ex) = True"
| "is_revoked_entry _ = False"

fun is_pull_error :: "log_entry \<Rightarrow> bool" where
  "is_pull_error (PullError cal ex) = True"
| "is_pull_error _ = False"

fun listed_calendars :: "io list \<Rightarrow> string list" where
  "listed_calendars [] = []"
| "listed_calendars (ListEvents cal tmin tmax r # tr) = cal # listed_calendars tr"
| "listed_calendars (x # tr) = listed_calendars tr"

fun is_list_call :: "io \<Rightarrow> bool" where
  "is_list_call (ListEvents cal tmin tmax r) = True"
| "is_list_call _ = False"

fun push_ok :: "log_entry \<Rightarrow> bool" where
  "push_ok (PushedTask i eid) = (eid \<noteq> [])"
| "push_ok (PushError i ex) = False"
| "push_ok _ = True"

subsection \<open>Predicates on tasks, stores and the outside world\<close>

text \<open>The event body of a task with a due date and no due time, when its description
  and reminder can be read.\<close>

definition all_day_body :: "task \<Rightarrow> event_body" where
  "all_day_body t =
     \<lparr> b_summary = field_get_default (title t) ''Untitled Task'',
       b_description = projr (event_description t),
       b_start = \<lparr> dateTime = None, date = map_option strftime_date (dueDate t), timeZone = None \<rparr>,
       b_end = \<lparr> dateTime = None, date = map_option strftime_date (dueDate t), timeZone = None \<rparr>,
       b_reminders = projr (reminders_of t),
       b_colorId = priority_colors (priority t) \<rparr>"

text \<open>A time string that the converter takes as naive: none of its three tests for a
  zone marker fires.\<close>

definition no_marker :: "string \<Rightarrow> bool" where
  "no_marker time_str =
     (\<not> (time_str \<noteq> [] \<and> last time_str = CHR ''Z'')
      \<and> CHR ''+'' \<notin> set time_str
      \<and> \<not> (count_char CHR ''-'' time_str > 2 \<and> CHR ''T'' \<in> set time_str))"

text \<open>The zone the converter works in: the user's, or UTC when the name is unknown.\<close>

definition zone_of :: "tzenv \<Rightarrow> preferences \<Rightarrow> tzinfo" where
  "zone_of tzs prefs = (case tz_lookup tzs (user_tz_str prefs) of Some z \<Rightarrow> z | None \<Rightarrow> tz_UTC)"

text \<open>The clock does not run backwards as the exchanges go on.\<close>

definition clock_mono :: "env \<Rightarrow> bool" where
  "clock_mono e = (\<forall>h x. env_utcnow e h \<le> env_utcnow e (x # h))"

text \<open>
  The ids of the tasks stamped ahead of the clock: their \<open>updatedAt\<close> is later than
  what the clock reads now. The scheduler reads \<open>datetime.utcnow()\<close>; the task routes
  (\<open>routes/tasks.py\<close>) stamp \<open>updatedAt\<close> with \<open>datetime.now()\<close>, the wall clock of the
  host, which is ahead of UTC on a host east of Greenwich.
\<close>

definition stamped_ahead :: "env \<Rightarrow> state \<Rightarrow> nat list" where
  "stamped_ahead e s =
     map task_id
       (filter (\<lambda>t. case updatedAt t of None \<Rightarrow> False
                               | Some ua \<Rightarrow> env_utcnow e (trace s) < ua) (tasks s))"

text \<open>Apart from the tasks with an id in \<open>A\<close>, no task carries an \<open>updatedAt\<close> later than
  what the clock reads now.\<close>

definition not_future :: "nat set \<Rightarrow> env \<Rightarrow> state \<Rightarrow> bool" where
  "not_future A e s =
     (\<forall>t \<in> set (tasks s). task_id t \<notin> A \<longrightarrow>
        (\<forall>ua. updatedAt t = Some ua \<longrightarrow> ua \<le> env_utcnow e (trace s)))"

text \<open>Apart from the tasks with an id in \<open>A\<close>, no task of the user is a push
  candidate.\<close>

definition in_sync :: "nat set \<Rightarrow> nat \<Rightarrow> task list \<Rightarrow> bool" where
  "in_sync A uid ts = (\<forall>t \<in> set ts. user t = uid \<longrightarrow> classify t = ToPush \<longrightarrow> task_id t \<in> A)"

text \<open>Some task of the user carries this event id.\<close>

definition linked :: "nat \<Rightarrow> task list \<Rightarrow> string \<Rightarrow> bool" where
  "linked uid ts eid = (\<exists>t \<in> set ts. user t = uid \<and> googleEventId t = Some eid)"

text \<open>Whatever the remote lists, each event with an id is linked to a task of \<open>ts\<close>.\<close>

definition lists_only_linked :: "env \<Rightarrow> nat \<Rightarrow> task list \<Rightarrow> bool" where
  "lists_only_linked e uid ts =
     (\<forall>h cal tmin tmax evs. env_list e h cal tmin tmax = Inr evs \<longrightarrow>
        (\<forall>ev \<in> set evs. \<forall>eid. ev_id ev = Some eid \<longrightarrow> eid \<noteq> [] \<longrightarrow> linked uid ts eid))"

text \<open>Ids in the task collection are unique, and only tasks with an id in \<open>A\<close> may be
  stamped ahead of the clock.\<close>

definition store_ok :: "nat set \<Rightarrow> env \<Rightarrow> state \<Rightarrow> bool" where
  "store_ok A e s = (distinct (map task_id (tasks s)) \<and> not_future A e s)"

text \<open>The three clock readings taken while a new task is put together.\<close>

definition now1 :: "env \<Rightarrow> state \<Rightarrow> timestamp" where
  "now1 e s = env_utcnow e (trace s)"

definition now2 :: "env \<Rightarrow> state \<Rightarrow> timestamp" where
  "now2 e s = env_utcnow e (Now (now1 e s) # trace s)"

definition now3 :: "env \<Rightarrow> state \<Rightarrow> timestamp" where
  "now3 e s = env_utcnow e (Now (now2 e s) # Now (now1 e s) # trace s)"

text \<open>A store with nothing left to push but tasks with an id in \<open>A\<close>, all events of
  \<open>ts0\<close> still linked, and every \<open>updatedAt\<close> as in \<open>ts0\<close>.\<close>

definition settled :: "nat set \<Rightarrow> env \<Rightarrow> nat \<Rightarrow> task list \<Rightarrow> state \<Rightarrow> bool" where
  "settled A e uid ts0 s =
     (store_ok A e s \<and> in_sync A uid (tasks s)
      \<and> (\<forall>eid. linked uid ts0 eid \<longrightarrow> linked uid (tasks s) eid)
      \<and> map updatedAt (tasks s) = map updatedAt ts0)"

section \<open>Concrete inputs\<close>

text \<open>
  Tasks, users, events and outside worlds on which the properties below are evaluated.
\<close>

definition utc_zones :: tzenv where
  "utc_zones = \<lparr> tz_lookup = (\<lambda>n. if n = ''UTC'' then Some tz_UTC else None),
                  system_local = tz_UTC \<rparr>"

definition example_date :: datetime where
  "example_date = \<lparr> year = 2026, month = 1, day = 9, hour = 0, minute = 0, second = 0,
                     microsecond = 0 \<rparr>"

definition example_task :: "nat \<Rightarrow> task" where
  "example_task i =
     \<lparr> task_id = i, user = 1, title = Val ''Pay rent'', description = Val [],
       list_ref = None, dueDate = Some example_date, dueTime = None,
       priority = Some ''none'', status = Some ''scheduled'', tags = [],
       reminder = Absent, googleEventId = None, googleCalendarId = Null,
       googleCalendarColor = None, syncedWithGoogle = False, syncToCalendar = Some True,
       lastSyncedAt = None, createdAt = Some 100, updatedAt = Some 100 \<rparr>"

definition example_user :: user_doc where
  "example_user =
     \<lparr> user_id = 1, googleAccessToken = Some ''token'', googleRefreshToken = Some ''refresh'',
       googleTokenExpiry = Some 5000, googleSelectedCalendars = Some [''work'', ''home''],
       lastCalendarSync = Some 900, preferences = None \<rparr>"

definition ok_response :: "py_exc + api_event" where
  "ok_response = Inr \<lparr> resp_id = Some ''ev-new'', htmlLink = None \<rparr>"

text \<open>A world where every remote call succeeds and no calendar holds an event.\<close>

definition quiet_env :: env where
  "quiet_env =
     \<lparr> env_utcnow = (\<lambda>h. 1000 + int (length h)),
       env_list = (\<lambda>h cal tmin tmax. Inr []),
       env_insert = (\<lambda>h cal body. ok_response),
       env_update = (\<lambda>h cal eid body. ok_response),
       env_store_fault = (\<lambda>h i. None),
       env_expired = (\<lambda>x. False),
       env_refresh = (\<lambda>u. Inl (RemoteError ''invalid_grant'')),
       env_tz = utc_zones \<rparr>"

text \<open>The same world, but the second remote write is refused.\<close>

definition flaky_env :: env where
  "flaky_env =
     quiet_env\<lparr> env_insert :=
       (\<lambda>h cal body. if length (filter is_write h) = 1
                      then Inl (RemoteError ''HttpError 503'') else ok_response) \<rparr>"

definition example_state :: "task list \<Rightarrow> state" where
  "example_state ts = \<lparr> users = [example_user], tasks = ts, lists = [], trace = [], log = [] \<rparr>"

definition three_tasks :: "task list" where
  "three_tasks = [example_task 1, example_task 2, example_task 3]"


definition linked_never_stamped :: task where
  "linked_never_stamped =
     (example_task 7)\<lparr> googleEventId := Some ''ev-7'', googleCalendarId := Val ''work'',
                       lastSyncedAt := None, updatedAt := Some 100 \<rparr>"

definition moved_task :: task where
  "moved_task =
     (example_task 5)\<lparr> googleEventId := Some ''ev-5'', googleCalendarId := Val ''home'',
                       lastSyncedAt := Some 50 \<rparr>"

definition reminder_without_mobile :: task where
  "reminder_without_mobile =
     (example_task 9)\<lparr> reminder :=
        Val \<lparr> enabled = Some True, notifyMobile = Absent, minutesBefore = Val 10 \<rparr> \<rparr>"

definition remote_edit :: gevent where
  "remote_edit =
     \<lparr> ev_id = Some ''ev-7'', summary = Val ''Dentist'', ev_description = Absent,
       start = Some \<lparr> dateTime = None, date = Some ''2026-01-12'', timeZone = None \<rparr>,
       updated = Some ''2026-01-10T08:00:00.000Z'', colorId = None \<rparr>"

definition remote_edit_stamp :: datetime where
  "remote_edit_stamp = \<lparr> year = 2026, month = 1, day = 10, hour = 8, minute = 0, second = 0,
                          microsecond = 0 \<rparr>"

text \<open>
  The morning of 2026-01-10 in UTC, in microseconds since the epoch. The remote event
  \<open>remote_edit\<close> was last modified at 08:00.
\<close>

definition at_0700 :: timestamp where "at_0700 = 1768028400000000"

definition at_0730 :: timestamp where "at_0730 = 1768030200000000"

definition at_0800 :: timestamp where "at_0800 = 1768032000000000"

definition at_0900 :: timestamp where "at_0900 = 1768035600000000"

definition at_1100 :: timestamp where "at_1100 = 1768042800000000"

text \<open>A task linked to the event, last edited and synced before the remote edit.\<close>

definition stale_task :: task where
  "stale_task =
     (example_task 7)\<lparr> googleEventId := Some ''ev-7'', googleCalendarId := Val ''work'',
                       lastSyncedAt := Some at_0730, createdAt := Some at_0700,
                       updatedAt := Some at_0730 \<rparr>"

text \<open>The same task, synced at 07:00 and edited locally at the instant of the remote
  edit.\<close>

definition tied_task :: task where
  "tied_task = stale_task\<lparr> lastSyncedAt := Some at_0700, updatedAt := Some at_0800 \<rparr>"

text \<open>A linked task synced at 07:00 whose \<open>updatedAt\<close> was written by a clock two hours
  ahead of the scheduler's: it reads 11:00 when the scheduler reads 09:00.\<close>

definition ahead_task :: task where
  "ahead_task =
     (example_task 8)\<lparr> googleEventId := Some ''ev-8'', googleCalendarId := Val ''work'',
                       lastSyncedAt := Some at_0700, createdAt := Some at_0700,
                       updatedAt := Some at_1100 \<rparr>"

definition example_due :: datetime where
  "example_due = \<lparr> year = 2026, month = 1, day = 12, hour = 0, minute = 0, second = 0,
                    microsecond = 0 \<rparr>"





definition calendar_task :: "nat \<Rightarrow> string \<Rightarrow> task" where
  "calendar_task i c =
     (example_task i)\<lparr> googleEventId := Some ''ev'', googleCalendarId := Val c,
                       lastSyncedAt := Some 200 \<rparr>"

definition ab_user :: user_doc where
  "ab_user = example_user\<lparr> googleSelectedCalendars := Some [''A'', ''B''] \<rparr>"

definition ab_tasks :: "task list" where
  "ab_tasks = [calendar_task 1 ''A'', calendar_task 2 ''B'', calendar_task 3 ''A'',
               calendar_task 4 ''B'', example_task 5]"

definition jan9_1430 :: datetime where
  "jan9_1430 = \<lparr> year = 2026, month = 1, day = 9, hour = 14, minute = 30, second = 0,
                  microsecond = 0 \<rparr>"

definition jan9_0730 :: datetime where
  "jan9_0730 = \<lparr> year = 2026, month = 1, day = 9, hour = 7, minute = 30, second = 0,
                  microsecond = 0 \<rparr>"

definition jan9 :: datetime where
  "jan9 = \<lparr> year = 2026, month = 1, day = 9, hour = 0, minute = 0, second = 0,
             microsecond = 0 \<rparr>"

definition mountain_standard :: tzinfo where
  "mountain_standard = \<lparr> utcoffset_at_utc = (\<lambda>t. - 420), utcoffset_at_local = (\<lambda>t. - 420) \<rparr>"

definition denver_zones :: tzenv where
  "denver_zones =
     \<lparr> tz_lookup = (\<lambda>n. if n = ''America/Denver'' then Some mountain_standard
                         else if n = ''UTC'' then Some tz_UTC else None),
       system_local = tz_UTC \<rparr>"

text \<open>
  A world whose clock reads 09:00 and advances by a microsecond with every exchange,
  whose calendar \<open>work\<close> lists the one event \<open>remote_edit\<close>, and whose updates answer
  with the id of the event they were given.
\<close>

definition morning_env :: env where
  "morning_env =
     \<lparr> env_utcnow = (\<lambda>h. at_0900 + int (length h)),
       env_list = (\<lambda>h cal tmin tmax. if cal = ''work'' then Inr [remote_edit] else Inr []),
       env_insert = (\<lambda>h cal body. ok_response),
       env_update = (\<lambda>h cal eid body. Inr \<lparr> resp_id = Some eid, htmlLink = None \<rparr>),
       env_store_fault = (\<lambda>h i. None),
       env_expired = (\<lambda>x. False),
       env_refresh = (\<lambda>u. Inl (RemoteError ''invalid_grant'')),
       env_tz = utc_zones \<rparr>"

definition synced_user :: "timestamp \<Rightarrow> user_doc" where
  "synced_user now = example_user\<lparr> lastCalendarSync := Some now \<rparr>"

definition morning_state :: "task list \<Rightarrow> state" where
  "morning_state ts =
     \<lparr> users = [synced_user at_0700], tasks = ts, lists = [], trace = [], log = [] \<rparr>"

text \<open>A cycle on the tied task, and the store its pull phase hands to the push phase.\<close>

definition tied_pulled :: state where
  "tied_pulled =
     fst (snd (pull_from_google morning_env (synced_user at_0700) [''work'', ''home'']
                 (morning_state [tied_task])))"

definition tied_run :: "bool \<times> state" where
  "tied_run = sync_user_calendar morning_env (synced_user at_0700) (morning_state [tied_task])"

definition tied_trace :: "io list" where
  "tied_trace =
     [Now (at_0900 + 5),
      UpdateEvent (Some ''work'') ''ev-7'' (all_day_body tied_task)
        (Inr \<lparr> resp_id = Some ''ev-7'', htmlLink = None \<rparr>),
      Now (at_0900 + 3),
      ListEvents ''home'' (at_0700 - hours_us 1) (at_0900 + hours_us (24 * 90)) (Inr []),
      ListEvents ''work'' (at_0700 - hours_us 1) (at_0900 + hours_us (24 * 90)) (Inr [remote_edit]),
      Now at_0900]"

text \<open>
  Two cycles in a row on a store that holds the stale task and the task stamped ahead;
  the second one is given the user record the first one stored.
\<close>

definition pulled_task :: "timestamp \<Rightarrow> task" where
  "pulled_task now = pull_overwrite remote_edit example_due None now stale_task"

definition pushed_task :: "timestamp \<Rightarrow> task" where
  "pushed_task now = push_bookkeeping ''ev-8'' ''work'' now ahead_task"

definition first_run :: "bool \<times> state" where
  "first_run =
     sync_user_calendar morning_env (synced_user at_0700) (morning_state [stale_task, ahead_task])"

definition second_run :: "bool \<times> state" where
  "second_run = sync_user_calendar morning_env (synced_user (at_0900 + 4)) (snd first_run)"

definition ahead_update :: io where
  "ahead_update =
     UpdateEvent (Some ''work'') ''ev-8'' (all_day_body ahead_task)
       (Inr \<lparr> resp_id = Some ''ev-8'', htmlLink = None \<rparr>)"

definition first_trace :: "io list" where
  "first_trace =
     [Now (at_0900 + 6),
      ahead_update,
      Now (at_0900 + 4),
      ListEvents ''home'' (at_0700 - hours_us 1) (at_0900 + hours_us (24 * 90)) (Inr []),
      Now (at_0900 + 2),
      ListEvents ''work'' (at_0700 - hours_us 1) (at_0900 + hours_us (24 * 90)) (Inr [remote_edit]),
      Now at_0900]"

definition second_trace :: "io list" where
  "second_trace =
     [Now (at_0900 + 13),
      ahead_update,
      Now (at_0900 + 11),
      ListEvents ''home'' (at_0900 + 4 - hours_us 1) (at_0900 + 7 + hours_us (24 * 90)) (Inr []),
      Now (at_0900 + 9),
      ListEvents ''work'' (at_0900 + 4 - hours_us 1) (at_0900 + 7 + hours_us (24 * 90))
        (Inr [remote_edit]),
      Now (at_0900 + 7)]"

section \<open>Properties\<close>

subsection \<open>Push phase\<close>

lemma log_since_append: "log s' = ens @ log s \<Longrightarrow> log_since s s' = rev ens"
  by (simp add: log_since_def)

lemma trace_since_append: "trace s' = tr @ trace s \<Longrightarrow> trace_since s s' = rev tr"
  by (simp add: trace_since_def)

lemma push_task_step:
  "\<exists>en tr. log (fst (push_task e p c t sc)) = en # log (fst sc)
     \<and> push_attempt_of en = Some (task_id t)
     \<and> (is_pushed en \<longrightarrow> snd (push_task e p c t sc) = snd sc + 1)
     \<and> (\<not> is_pushed en \<longrightarrow> is_push_error en \<and> snd (push_task e p c t sc) = snd sc)
     \<and> trace (fst (push_task e p c t sc)) = tr @ trace (fst sc)
     \<and> length (filter is_write tr) = (if builds e p t then 1 else 0)"
  by (auto simp: push_task_def builds_def Let_def events_update_def events_insert_def utcnow_def
           split: sum.splits option.splits prod.splits)

lemma push_loop_steps:
  "\<exists>ens tr. log (fst (push_loop e p c ts sc)) = ens @ log (fst sc)
     \<and> map push_attempt_of (rev ens) = map (\<lambda>t. Some (task_id t)) ts
     \<and> snd (push_loop e p c ts sc) = snd sc + length (filter is_pushed ens)
     \<and> length (filter is_pushed ens) + length (filter is_push_error ens) = length ts
     \<and> trace (fst (push_loop e p c ts sc)) = tr @ trace (fst sc)
     \<and> length (filter is_write tr) = length (filter (builds e p) ts)"
proof (induction ts arbitrary: sc)
  case Nil
  then show ?case by simp
next
  case (Cons t ts)
  let ?sc1 = "push_task e p c t sc"
  obtain en tr1 where en: "log (fst ?sc1) = en # log (fst sc)"
      "push_attempt_of en = Some (task_id t)"
      "is_pushed en \<longrightarrow> snd ?sc1 = snd sc + 1"
      "\<not> is_pushed en \<longrightarrow> is_push_error en \<and> snd ?sc1 = snd sc"
      "trace (fst ?sc1) = tr1 @ trace (fst sc)"
      "length (filter is_write tr1) = (if builds e p t then 1 else 0)"
    using push_task_step by blast
  obtain ens tr where ens: "log (fst (push_loop e p c ts ?sc1)) = ens @ log (fst ?sc1)"
      "map push_attempt_of (rev ens) = map (\<lambda>t. Some (task_id t)) ts"
      "snd (push_loop e p c ts ?sc1) = snd ?sc1 + length (filter is_pushed ens)"
      "length (filter is_pushed ens) + length (filter is_push_error ens) = length ts"
      "trace (fst (push_loop e p c ts ?sc1)) = tr @ trace (fst ?sc1)"
      "length (filter is_write tr) = length (filter (builds e p) ts)"
    using Cons.IH by blast
  have pe: "is_pushed en \<Longrightarrow> \<not> is_push_error en" by (cases en) auto
  show ?case
    apply (rule exI[of _ "ens @ [en]"])
    apply (rule exI[of _ "tr @ tr1"])
    using en ens pe by auto
qed

lemma classify_ToPush:
  "classify t = ToPush \<longleftrightarrow>
     (dueDate t \<noteq> None
      \<and> status t \<notin> {Some ''completed'', Some ''deleted'', Some ''skipped''}
      \<and> truthy_bool (syncToCalendar t)
      \<and> (\<not> truthy_str (googleEventId t)
         \<or> (\<exists>ua ls. updatedAt t = Some ua \<and> lastSyncedAt t = Some ls \<and> ls < ua)))"
  by (auto simp: classify_def split: option.splits)

lemma push_attempts:
  assumes "distinct (map task_id (tasks s))" and "t \<in> set (tasks s)" and "user t = user_id u"
  shows "Some (task_id t) \<in> set (map push_attempt_of (log_since s (fst (push_to_google e u p c s))))
         \<longleftrightarrow> classify t = ToPush"
proof -
  let ?cs = "tasks_to_push (find_user_tasks (user_id u) (tasks s))"
  let ?s' = "fst (push_to_google e u p c s)"
  obtain ens where st: "log ?s' = ens @ log s"
      "map push_attempt_of (rev ens) = map (\<lambda>t. Some (task_id t)) ?cs"
    using push_loop_steps[of e p c ?cs "(s, 0)"] by (auto simp: push_to_google_def Let_def)
  have l: "log_since s ?s' = rev ens" using st(1) by (rule log_since_append)
  have inj: "inj_on task_id (set (tasks s))" using assms(1) by (simp add: distinct_map)
  have "Some (task_id t) \<in> set (map push_attempt_of (log_since s ?s')) \<longleftrightarrow> task_id t \<in> task_id ` set ?cs"
    using st(2) l by (auto simp: rev_map image_iff)
  also have "\<dots> \<longleftrightarrow> t \<in> set ?cs"
  proof
    assume "task_id t \<in> task_id ` set ?cs"
    then obtain t' where t': "t' \<in> set ?cs" "task_id t' = task_id t" by auto
    then have "t' \<in> set (tasks s)" by (auto simp: tasks_to_push_def find_user_tasks_def)
    with inj assms(2) t'(2) have "t' = t" by (auto dest: inj_onD)
    with t'(1) show "t \<in> set ?cs" by simp
  qed auto
  also have "\<dots> \<longleftrightarrow> classify t = ToPush"
    using assms(2,3) by (auto simp: tasks_to_push_def find_user_tasks_def)
  finally show ?thesis .
qed

lemma build_all_day:
  "dueDate t = Some d \<Longrightarrow> \<not> truthy_str (dueTime t) \<Longrightarrow>
   event_description t = Inr ds \<Longrightarrow> reminders_of t = Inr rem \<Longrightarrow>
   build_google_calendar_event tzs t p =
     Inr \<lparr> b_summary = field_get_default (title t) ''Untitled Task'',
           b_description = ds,
           b_start = \<lparr> dateTime = None, date = Some (strftime_date d), timeZone = None \<rparr>,
           b_end = \<lparr> dateTime = None, date = Some (strftime_date d), timeZone = None \<rparr>,
           b_reminders = rem,
           b_colorId = priority_colors (priority t) \<rparr>"
  by (simp add: build_google_calendar_event_def Let_def)

lemma event_description_reads:
  "description t \<noteq> Null \<Longrightarrow> event_description t = Inr (projr (event_description t))"
  by (cases "description t") (simp_all add: event_description_def Let_def)

lemma reminders_of_reads:
  "reminder t \<noteq> Null \<Longrightarrow> reminders_of t = Inr (projr (reminders_of t))"
  by (cases "reminder t") (simp_all add: reminders_of_def)

lemma build_all_day_body:
  assumes "dueDate t \<noteq> None" and "\<not> truthy_str (dueTime t)"
    and "description t \<noteq> Null" and "reminder t \<noteq> Null"
  shows "build_google_calendar_event tzs t p = Inr (all_day_body t)"
proof -
  obtain d where d: "dueDate t = Some d" using assms(1) by auto
  show ?thesis
    using build_all_day[OF d assms(2) event_description_reads[OF assms(3)]
            reminders_of_reads[OF assms(4)], of tzs p] d
    by (simp add: all_day_body_def)
qed


lemma build_example_task:
  "build_google_calendar_event tzs (example_task i) p = Inr (all_day_body (example_task i))"
  by (rule build_all_day_body) (simp_all add: example_task_def)



lemma find_task_update:
  "(\<And>t. task_id (f t) = task_id t) \<Longrightarrow>
   find_task i (update_task i f ts) = map_option f (find_task i ts)"
  by (induction ts) (auto simp: find_task_def)

lemma push_bookkeeping_simps:
  "task_id (push_bookkeeping eid c now t) = task_id t"
  "googleCalendarId (push_bookkeeping eid c now t) = Val c"
  "googleEventId (push_bookkeeping eid c now t) = Some eid"
  "lastSyncedAt (push_bookkeeping eid c now t) = Some now"
  "updatedAt (push_bookkeeping eid c now t) = updatedAt t"
  "user (push_bookkeeping eid c now t) = user t"
  by (simp_all add: push_bookkeeping_def)

text \<open>
  Claim C1, as amended. In the push phase a push attempt is made for a task of the user
  exactly when the task has a due date, its status is none of completed, deleted and
  skipped, \<open>syncToCalendar\<close> is truthy, and either it has no (or an empty)
  \<open>googleEventId\<close>, or \<open>updatedAt\<close> and \<open>lastSyncedAt\<close> are both present and
  \<open>updatedAt\<close> is strictly later. A linked task with no \<open>lastSyncedAt\<close> is not pushed.
  Each attempt whose event body builds issues exactly one remote insert or update.
\<close>

theorem push_eligibility:
  assumes "distinct (map task_id (tasks s))" and "t \<in> set (tasks s)" and "user t = user_id u"
  shows "(Some (task_id t) \<in> set (map push_attempt_of (log_since s (fst (push_to_google e u p c s))))
          \<longleftrightarrow>
          (dueDate t \<noteq> None
           \<and> status t \<notin> {Some ''completed'', Some ''deleted'', Some ''skipped''}
           \<and> truthy_bool (syncToCalendar t)
           \<and> (\<not> truthy_str (googleEventId t)
              \<or> (\<exists>ua ls. updatedAt t = Some ua \<and> lastSyncedAt t = Some ls \<and> ls < ua))))
       \<and> length (filter is_write (trace_since s (fst (push_to_google e u p c s))))
           = length (filter (builds e p) (tasks_to_push (find_user_tasks (user_id u) (tasks s))))"
proof -
  let ?cs = "tasks_to_push (find_user_tasks (user_id u) (tasks s))"
  let ?s' = "fst (push_to_google e u p c s)"
  obtain tr where st: "trace ?s' = tr @ trace s"
      "length (filter is_write tr) = length (filter (builds e p) ?cs)"
    using push_loop_steps[of e p c ?cs "(s, 0)"] by (auto simp: push_to_google_def Let_def)
  have tr: "trace_since s ?s' = rev tr" using st(1) by (rule trace_since_append)
  show ?thesis
    using push_attempts[OF assms, of e p c] tr st(2)
    by (simp add: classify_ToPush rev_filter[symmetric])
qed

text \<open>
  The claim as stated counts a linked task whose \<open>lastSyncedAt\<close> is absent as needing
  a push; the source's guard \<open>updated_at and last_synced and ...\<close> files it under
  "already synced" and no remote call is made.
\<close>

theorem push_eligibility_counterexample:
  "truthy_bool (syncToCalendar linked_never_stamped)
   \<and> dueDate linked_never_stamped \<noteq> None
   \<and> status linked_never_stamped \<notin> {Some ''completed'', Some ''deleted'', Some ''skipped''}
   \<and> googleEventId linked_never_stamped = Some ''ev-7''
   \<and> lastSyncedAt linked_never_stamped = None
   \<and> classify linked_never_stamped = AlreadySynced
   \<and> tasks_to_push [linked_never_stamped] = []
   \<and> trace (fst (push_to_google quiet_env example_user \<lparr> timezone = None \<rparr> ''work''
               (example_state [linked_never_stamped]))) = []"
  by (simp add: linked_never_stamped_def example_task_def classify_def tasks_to_push_def
        push_to_google_def find_user_tasks_def example_state_def example_user_def)

theorem push_eligibility_witness:
  "distinct (map task_id (tasks (example_state three_tasks)))
   \<and> example_task 2 \<in> set (tasks (example_state three_tasks))
   \<and> user (example_task 2) = user_id example_user
   \<and> Some (task_id (example_task 2))
        \<in> set (map push_attempt_of (log_since (example_state three_tasks)
              (fst (push_to_google flaky_env example_user \<lparr> timezone = None \<rparr> ''primary''
                     (example_state three_tasks)))))
   \<and> length (filter is_write (trace_since (example_state three_tasks)
              (fst (push_to_google flaky_env example_user \<lparr> timezone = None \<rparr> ''primary''
                     (example_state three_tasks))))) = 3"
proof -
  have d: "distinct (map task_id (tasks (example_state three_tasks)))"
    by (simp add: example_state_def three_tasks_def example_task_def)
  have m: "example_task 2 \<in> set (tasks (example_state three_tasks))"
    by (simp add: example_state_def three_tasks_def)
  have u: "user (example_task 2) = user_id example_user"
    by (simp add: example_task_def example_user_def)
  have c: "tasks_to_push (find_user_tasks (user_id example_user) (tasks (example_state three_tasks)))
             = three_tasks"
    by (simp add: tasks_to_push_def find_user_tasks_def example_state_def three_tasks_def
          example_task_def example_user_def classify_def)
  have b: "filter (builds flaky_env \<lparr> timezone = None \<rparr>) three_tasks = three_tasks"
    by (simp add: builds_def three_tasks_def build_example_task)
  show ?thesis
    using push_eligibility[OF d m u, of flaky_env "\<lparr> timezone = None \<rparr>" "''primary''"] d m u c b
    by (simp add: example_task_def three_tasks_def)
qed



text \<open>
  Claim C10. For a linked candidate the one remote write is an update addressed to the
  calendar recorded on the task, and a successful push stores the push-phase target
  calendar in \<open>googleCalendarId\<close>; when the two differ, the stored id is no longer the
  calendar the update was sent to.
\<close>

theorem push_linked_calendar:
  assumes "truthy_str (googleEventId t)" and "googleCalendarId t = Val recorded"
    and "build_google_calendar_event (env_tz e) t p = Inr body"
    and "push_task e p target t (s, n) = (s', n')"
  shows "filter is_write (trace_since s s')
           = [UpdateEvent (Some recorded) (the (googleEventId t)) body
                (env_update e (trace s) (Some recorded) (the (googleEventId t)) body)]
       \<and> (n' = n + 1 \<longrightarrow> find_task (task_id t) (tasks s) \<noteq> None \<longrightarrow>
            map_option googleCalendarId (find_task (task_id t) (tasks s')) = Some (Val target)
            \<and> (recorded \<noteq> target \<longrightarrow>
                 map_option googleCalendarId (find_task (task_id t) (tasks s')) \<noteq> Some (Val recorded)))"
  using assms
  by (auto simp: push_task_def Let_def events_update_def utcnow_def trace_since_def
        find_task_update push_bookkeeping_simps
        split: sum.splits option.splits prod.splits)

theorem push_linked_calendar_witness:
  "truthy_str (googleEventId moved_task)
   \<and> googleCalendarId moved_task = Val ''home''
   \<and> build_google_calendar_event (env_tz quiet_env) moved_task \<lparr> timezone = None \<rparr>
        = Inr (all_day_body moved_task)
   \<and> push_task quiet_env \<lparr> timezone = None \<rparr> ''work'' moved_task (example_state [moved_task], 0)
        = (fst (push_task quiet_env \<lparr> timezone = None \<rparr> ''work'' moved_task
                  (example_state [moved_task], 0)), 1)
   \<and> find_task 5 (tasks (example_state [moved_task])) \<noteq> None
   \<and> filter is_write (trace_since (example_state [moved_task])
          (fst (push_task quiet_env \<lparr> timezone = None \<rparr> ''work'' moved_task
                  (example_state [moved_task], 0))))
        = [UpdateEvent (Some ''home'') ''ev-5'' (all_day_body moved_task) ok_response]
   \<and> map_option googleCalendarId
        (find_task 5 (tasks (fst (push_task quiet_env \<lparr> timezone = None \<rparr> ''work'' moved_task
                  (example_state [moved_task], 0))))) = Some (Val ''work'')"
proof -
  let ?r = "push_task quiet_env \<lparr> timezone = None \<rparr> ''work'' moved_task (example_state [moved_task], 0)"
  have i: "googleEventId moved_task = Some ''ev-5''" "task_id moved_task = 5"
      "googleCalendarId moved_task = Val ''home''"
    by (simp_all add: moved_task_def example_task_def)
  have tz: "env_tz quiet_env = utc_zones" by (simp add: quiet_env_def)
  have h1: "truthy_str (googleEventId moved_task)" by (simp add: i)
  have h2: "googleCalendarId moved_task = Val ''home''" by (simp add: i)
  have h3: "build_google_calendar_event (env_tz quiet_env) moved_task \<lparr> timezone = None \<rparr>
              = Inr (all_day_body moved_task)"
    by (rule build_all_day_body) (simp_all add: moved_task_def example_task_def)
  have u: "env_update quiet_env h (Some ''home'') ''ev-5'' b = ok_response" for h b
    by (simp add: quiet_env_def)
  have sf: "env_store_fault quiet_env h k = None" for h k
    by (simp add: quiet_env_def)
  have n: "snd ?r = 1"
    by (simp add: push_task_def h3 Let_def events_update_def utcnow_def u sf
          ok_response_def i)
  have h4: "?r = (fst ?r, 0 + 1)" using n by (metis prod.collapse add_0)
  have f: "find_task 5 (tasks (example_state [moved_task])) \<noteq> None"
    by (simp add: find_task_def example_state_def i)
  show ?thesis
    using push_linked_calendar[OF h1 h2 h3 h4] h1 h2 h3 h4 f i u by (simp add: example_state_def)
qed

subsection \<open>Task to event\<close>

text \<open>
  Claim C9, as amended. The produced event body carries a reminders override exactly when
  the task's \<open>reminder\<close> is a stored dict whose \<open>enabled\<close> is truthy and whose
  \<open>notifyMobile\<close> is true or missing (the mapper reads it with the default \<open>True\<close>; a
  stored \<open>None\<close> or \<open>False\<close> attaches nothing). The override is a single popup with
  \<open>useDefault\<close> false whose minutes are the task's \<open>minutesBefore\<close>: 30 when the key is
  missing, and null when it holds \<open>None\<close>. Otherwise the body has no reminders field. A
  task whose \<open>reminder\<close> key holds \<open>None\<close> yields no event body at all.
\<close>

theorem reminder_override:
  assumes "build_google_calendar_event tzs t p = Inr body"
  shows "reminder t \<noteq> Null
       \<and> b_reminders body =
           (case reminder t of
              Val r \<Rightarrow>
                if truthy_bool (enabled r) \<and> (notifyMobile r = Absent \<or> notifyMobile r = Val True)
                then Some \<lparr> useDefault = False,
                            overrides = [(''popup'',
                              (case minutesBefore r of
                                 Absent \<Rightarrow> Some 30 | Null \<Rightarrow> None | Val m \<Rightarrow> Some m))] \<rparr>
                else None
            | Absent \<Rightarrow> None
            | Null \<Rightarrow> None)"
proof -
  have r: "reminders_of t = Inr (b_reminders body)"
    using assms
    by (auto simp: build_google_calendar_event_def Let_def
          split: option.splits sum.splits if_splits prod.splits)
  show ?thesis
  proof (cases "reminder t")
    case Absent
    with r show ?thesis by (simp add: reminders_of_def no_reminder_def)
  next
    case Null
    with r show ?thesis by (simp add: reminders_of_def)
  next
    case (Val c)
    have m: "field_get_default (minutesBefore c) 30
               = (case minutesBefore c of Absent \<Rightarrow> Some 30 | Null \<Rightarrow> None | Val m \<Rightarrow> Some m)"
      by (cases "minutesBefore c") simp_all
    have n: "truthy_bool (field_get_default (notifyMobile c) True)
               = (notifyMobile c = Absent \<or> notifyMobile c = Val True)"
      by (cases "notifyMobile c") auto
    from r Val show ?thesis by (auto simp: reminders_of_def m n)
  qed
qed

text \<open>
  The claim as stated attaches the override only when \<open>notifyMobile\<close> is true; a reminder
  that is enabled and has no \<open>notifyMobile\<close> key gets the override as well.
\<close>

theorem reminder_override_counterexample:
  "reminder reminder_without_mobile
     = Val \<lparr> enabled = Some True, notifyMobile = Absent, minutesBefore = Val 10 \<rparr>
   \<and> map_sum id b_reminders
        (build_google_calendar_event utc_zones reminder_without_mobile \<lparr> timezone = None \<rparr>)
     = Inr (Some \<lparr> useDefault = False, overrides = [(''popup'', Some 10)] \<rparr>)"
proof -
  have "build_google_calendar_event utc_zones reminder_without_mobile \<lparr> timezone = None \<rparr>
          = Inr (all_day_body reminder_without_mobile)"
    by (rule build_all_day_body) (simp_all add: reminder_without_mobile_def example_task_def)
  then show ?thesis
    by (simp add: all_day_body_def reminders_of_def reminder_without_mobile_def example_task_def)
qed

theorem reminder_override_witness:
  "build_google_calendar_event utc_zones reminder_without_mobile \<lparr> timezone = None \<rparr>
     = Inr (all_day_body reminder_without_mobile)
   \<and> b_reminders (all_day_body reminder_without_mobile)
     = Some \<lparr> useDefault = False, overrides = [(''popup'', Some 10)] \<rparr>"
proof -
  have b: "build_google_calendar_event utc_zones reminder_without_mobile \<lparr> timezone = None \<rparr>
          = Inr (all_day_body reminder_without_mobile)"
    by (rule build_all_day_body) (simp_all add: reminder_without_mobile_def example_task_def)
  show ?thesis using reminder_override[OF b] b
    by (simp add: reminder_without_mobile_def)
qed

subsection \<open>Credentials\<close>

text \<open>
  Credential resolution gives \<open>None\<close> exactly for a user record without an access token,
  and it never writes to the store: the credentials are built without an expiry, so they
  never read as expired and the refresh is never tried.
\<close>

lemma credentials_resolved:
  "get_credentials_from_user e u s =
     ((if truthy_str (googleAccessToken u) then Some (make_credentials u) else None), s)"
  by (simp add: get_credentials_from_user_def make_credentials_def expired_def Let_def)

text \<open>
  So the cycle answers "not connected" exactly for a user without an access token, and
  then leaves the whole state as it was. The branch of the cycle that clears stored tokens
  asks for \<open>None\<close> together with a stored access token; no user record leads there.
\<close>

lemma not_connected:
  "fst (sync_user_calendar e u s) = truthy_str (googleAccessToken u)"
  "\<not> truthy_str (googleAccessToken u) \<Longrightarrow> sync_user_calendar e u s = (False, s)"
  by (simp_all add: sync_user_calendar_def credentials_resolved case_prod_beta Let_def)

lemma clearing_never_reached:
  "\<not> (fst (get_credentials_from_user e u s) = None \<and> truthy_str (googleAccessToken u))"
  by (simp add: credentials_resolved)

subsection \<open>Pull phase\<close>

lemma update_task_distinct:
  "distinct (map task_id ts) \<Longrightarrow>
   update_task i f ts = map (\<lambda>x. if task_id x = i then f x else x) ts"
  by (induction ts) (auto simp: image_iff intro!: map_idI[symmetric])

lemma find_task_by_event_mem:
  "find_task_by_event uid eid ts = Some t \<Longrightarrow>
   t \<in> set ts \<and> user t = uid \<and> googleEventId t = Some eid"
  by (auto simp: find_task_by_event_def find_Some_iff)

lemma update_task_same:
  assumes "distinct (map task_id ts)" and "t \<in> set ts"
  shows "update_task (task_id t) f ts = map (\<lambda>x. if x = t then f x else x) ts"
proof -
  have inj: "inj_on task_id (set ts)" using assms(1) by (simp add: distinct_map)
  have "\<And>x. x \<in> set ts \<Longrightarrow> (task_id x = task_id t) = (x = t)"
    using inj assms(2) by (auto dest: inj_onD)
  then show ?thesis using assms(1) by (simp add: update_task_distinct cong: map_cong)
qed

text \<open>
  Claim C2, as amended. For a remote event that matches a task of the user by
  \<open>googleEventId\<close>: when the event's last-modified time is strictly later than the task's
  \<open>updatedAt\<close>, the pull overwrites title, description, \<open>dueDate\<close> and \<open>dueTime\<close> from
  the event and sets \<open>lastSyncedAt\<close> to the clock reading taken then, touching nothing
  else; when the task's \<open>updatedAt\<close> is equal or later, the handling of the event leaves
  the whole state as it was: no write to the store and no call of the remote service.
  Neither outcome settles whether the task is pushed in the same cycle. A push phase
  that finds the task as it was attempts it exactly when it has a due date, its status
  is none of completed, deleted and skipped, \<open>syncToCalendar\<close> is truthy and its
  \<open>lastSyncedAt\<close> is present and earlier than its \<open>updatedAt\<close>; the remote time plays no
  part, so a task tied with its event is pushed when it was edited after its last sync.
\<close>

theorem pull_last_write_wins:
  assumes "ev_id ev = Some eid" and "eid \<noteq> []"
    and "find_task_by_event (user_id u) eid (tasks s) = Some t"
    and "distinct (map task_id (tasks s))"
    and "event_times (env_tz e) (prefs_of u) ev = Inr (Some (due_date, due_time))"
    and "event_updated_at ev = Inr (Some remote_updated)"
    and "updatedAt t = Some local_updated"
    and "t \<in> set (tasks sp)" and "distinct (map task_id (tasks sp))"
  shows "(local_updated < remote_updated \<longrightarrow>
            pull_event e u calendar_id ev (s, n) =
              Inr (s\<lparr> trace := Now (env_utcnow e (trace s)) # trace s,
                      tasks := map (\<lambda>x. if x = t
                                 then t\<lparr> title := stored (event_title ev),
                                         description := stored (event_desc ev),
                                         dueDate := Some due_date, dueTime := due_time,
                                         lastSyncedAt := Some (env_utcnow e (trace s)) \<rparr>
                                 else x) (tasks s) \<rparr>, n + 1))
       \<and> (remote_updated \<le> local_updated \<longrightarrow>
            pull_event e u calendar_id ev (s, n) = Inr (s, n))
       \<and> (Some (task_id t)
             \<in> set (map push_attempt_of (log_since sp (fst (push_to_google e u p target sp))))
           \<longleftrightarrow>
             dueDate t \<noteq> None
             \<and> status t \<notin> {Some ''completed'', Some ''deleted'', Some ''skipped''}
             \<and> truthy_bool (syncToCalendar t)
             \<and> (\<exists>ls. lastSyncedAt t = Some ls \<and> ls < local_updated))"
proof -
  have m: "t \<in> set (tasks s)" "user t = user_id u" "googleEventId t = Some eid"
    using assms(3) by (simp_all add: find_task_by_event_mem)
  have up: "update_task (task_id t) f (tasks s) = map (\<lambda>x. if x = t then f x else x) (tasks s)" for f
    using assms(4) m(1) by (rule update_task_same)
  have pull: "(local_updated < remote_updated \<longrightarrow>
            pull_event e u calendar_id ev (s, n) =
              Inr (s\<lparr> trace := Now (env_utcnow e (trace s)) # trace s,
                      tasks := map (\<lambda>x. if x = t
                                 then t\<lparr> title := stored (event_title ev),
                                         description := stored (event_desc ev),
                                         dueDate := Some due_date, dueTime := due_time,
                                         lastSyncedAt := Some (env_utcnow e (trace s)) \<rparr>
                                 else x) (tasks s) \<rparr>, n + 1))
       \<and> (remote_updated \<le> local_updated \<longrightarrow>
            pull_event e u calendar_id ev (s, n) = Inr (s, n))"
    using assms(1,2,3,5,6,7)
    by (simp add: pull_event_def Let_def utcnow_def up pull_overwrite_def)
  have c: "classify t = ToPush \<longleftrightarrow>
             dueDate t \<noteq> None
             \<and> status t \<notin> {Some ''completed'', Some ''deleted'', Some ''skipped''}
             \<and> truthy_bool (syncToCalendar t)
             \<and> (\<exists>ls. lastSyncedAt t = Some ls \<and> ls < local_updated)"
    using m(3) assms(2,7) by (auto simp: classify_ToPush)
  show ?thesis
    using pull push_attempts[OF assms(9,8) m(2), of e p target] c by simp
qed

lemmas parse_defs = fromisoformat_def parse_date_def parse_clock_def parse_offset_def
  parse_fraction_def split_offset_def two_digits_def digits_val_def is_digit_def digit_val_def
  valid_datetime_def days_in_month_def is_leap_def

lemma strptime_example:
  "strptime_date ''2026-01-12'' =
     Inr \<lparr> year = 2026, month = 1, day = 12, hour = 0, minute = 0, second = 0, microsecond = 0 \<rparr>"
  by (simp add: strptime_date_def parse_defs)

lemma fromiso_example:
  "fromisoformat ''2026-01-10T08:00:00.000+00:00'' = Inr (remote_edit_stamp, Some 0)"
  by (simp add: parse_defs remote_edit_stamp_def)

lemma micros_example: "to_micros remote_edit_stamp = 1768032000000000"
  by code_simp

lemma remote_edit_times:
  "event_times tzs p remote_edit =
     Inr (Some (\<lparr> year = 2026, month = 1, day = 12, hour = 0, minute = 0, second = 0, microsecond = 0 \<rparr>, None))"
  by (simp add: event_times_def remote_edit_def strptime_example)

lemma remote_edit_updated:
  "event_updated_at remote_edit = Inr (Some 1768032000000000)"
  by (simp add: event_updated_at_def remote_edit_def fromiso_example micros_example)

lemma remote_edit_simps:
  "ev_id remote_edit = Some ''ev-7''"
  "event_times tzs p remote_edit = Inr (Some (example_due, None))"
  "event_updated_at remote_edit = Inr (Some at_0800)"
  "event_title remote_edit = Some ''Dentist''" "event_desc remote_edit = Some []"
  by (simp_all add: remote_edit_times example_due_def remote_edit_updated at_0800_def
        event_title_def event_desc_def)
     (simp_all add: remote_edit_def)

lemma stale_task_simps:
  "task_id stale_task = 7" "user stale_task = 1" "googleEventId stale_task = Some ''ev-7''"
  "updatedAt stale_task = Some at_0730" "lastSyncedAt stale_task = Some at_0730"
  by (simp_all add: stale_task_def example_task_def)

lemma tied_task_simps:
  "task_id tied_task = 7" "user tied_task = 1" "googleEventId tied_task = Some ''ev-7''"
  "updatedAt tied_task = Some at_0800" "lastSyncedAt tied_task = Some at_0700"
  "googleCalendarId tied_task = Val ''work''"
  "classify tied_task = ToPush"
  "build_google_calendar_event tzs tied_task p = Inr (all_day_body tied_task)"
proof -
  show "build_google_calendar_event tzs tied_task p = Inr (all_day_body tied_task)"
    by (rule build_all_day_body) (simp_all add: tied_task_def stale_task_def example_task_def)
qed (simp_all add: tied_task_def stale_task_def example_task_def classify_def at_0700_def
       at_0800_def)

lemma user_simps:
  "user_id example_user = 1" "user_id (synced_user now) = 1"
  "googleAccessToken (synced_user now) = Some ''token''"
  "lastCalendarSync (synced_user now) = Some now"
  "selected_or_primary (synced_user now) = [''work'', ''home'']"
  "prefs_of (synced_user now) = \<lparr> timezone = None \<rparr>"
  "set_watermark now (synced_user now') = synced_user now"
  by (simp_all add: example_user_def synced_user_def selected_or_primary_def prefs_of_def
        set_watermark_def)

lemma morning_env_simps:
  "env_utcnow morning_env h = at_0900 + int (length h)"
  "env_list morning_env h cal tmin tmax = (if cal = ''work'' then Inr [remote_edit] else Inr [])"
  "env_update morning_env h c eid b = Inr \<lparr> resp_id = Some eid, htmlLink = None \<rparr>"
  "env_store_fault morning_env h i = None"
  by (simp_all add: morning_env_def)

lemmas run_defs = sync_user_calendar_def credentials_resolved pull_from_google_def
  Let_def utcnow_def events_list_def pull_event_def push_to_google_def tasks_to_push_def
  find_user_tasks_def find_task_by_event_def push_target_def push_task_def events_update_def

lemma tied_run_eval:
  "tied_run =
     (True, \<lparr> users = [synced_user (at_0900 + 3)],
             tasks = [push_bookkeeping ''ev-7'' ''work'' (at_0900 + 5) tied_task],
             lists = [], trace = tied_trace, log = [PushedTask 7 ''ev-7''] \<rparr>)"
  by (simp add: tied_run_def tied_trace_def morning_state_def run_defs remote_edit_simps
        tied_task_simps user_simps morning_env_simps)


lemma tied_pulled_eval:
  "tied_pulled =
     \<lparr> users = [synced_user (at_0900 + 3)], tasks = [tied_task], lists = [],
       trace = drop 2 tied_trace, log = [] \<rparr>"
  by (simp add: tied_pulled_def tied_trace_def morning_state_def run_defs remote_edit_simps
        tied_task_simps user_simps morning_env_simps)

text \<open>
  The claim as stated has a tie cause neither a pull-overwrite nor a push and leave the
  task unchanged for the cycle. Here the task was edited locally at the instant of the
  remote edit, after its last sync: the pull phase leaves it alone, and the push phase of
  the same cycle sends it to the remote calendar and stamps it.
\<close>

theorem pull_last_write_wins_counterexample:
  "updatedAt tied_task = Some at_0800
   \<and> event_updated_at remote_edit = Inr (Some at_0800)
   \<and> find_task_by_event (user_id (synced_user at_0700)) ''ev-7''
         (tasks (morning_state [tied_task])) = Some tied_task
   \<and> fst tied_run
   \<and> filter is_write (trace (snd tied_run))
       = [UpdateEvent (Some ''work'') ''ev-7'' (all_day_body tied_task)
            (Inr \<lparr> resp_id = Some ''ev-7'', htmlLink = None \<rparr>)]
   \<and> log (snd tied_run) = [PushedTask 7 ''ev-7'']
   \<and> map lastSyncedAt (tasks (morning_state [tied_task])) = [Some at_0700]
   \<and> map lastSyncedAt (tasks (snd tied_run)) = [Some (at_0900 + 5)]"
  by (simp add: tied_run_eval tied_trace_def remote_edit_simps tied_task_simps
        morning_state_def push_bookkeeping_simps find_task_by_event_def user_simps)

theorem pull_last_write_wins_witness:
  "ev_id remote_edit = Some ''ev-7''
   \<and> find_task_by_event (user_id (synced_user at_0700)) ''ev-7''
         (tasks (morning_state [stale_task])) = Some stale_task
   \<and> distinct (map task_id (tasks (morning_state [stale_task])))
   \<and> event_times (env_tz morning_env) (prefs_of (synced_user at_0700)) remote_edit
       = Inr (Some (example_due, None))
   \<and> event_updated_at remote_edit = Inr (Some at_0800)
   \<and> updatedAt stale_task = Some at_0730 \<and> at_0730 < at_0800
   \<and> pull_event morning_env (synced_user at_0700) ''work'' remote_edit
         (morning_state [stale_task], 0)
       = Inr ((morning_state [stale_task])
                \<lparr> trace := [Now at_0900],
                  tasks := [stale_task\<lparr> title := Val ''Dentist'', description := Val [],
                                        dueDate := Some example_due, dueTime := None,
                                        lastSyncedAt := Some at_0900 \<rparr>] \<rparr>, 1)
   \<and> find_task_by_event (user_id (synced_user at_0700)) ''ev-7''
         (tasks (morning_state [tied_task])) = Some tied_task
   \<and> updatedAt tied_task = Some at_0800
   \<and> pull_event morning_env (synced_user at_0700) ''work'' remote_edit
         (morning_state [tied_task], 0)
       = Inr (morning_state [tied_task], 0)
   \<and> tied_task \<in> set (tasks tied_pulled) \<and> distinct (map task_id (tasks tied_pulled))
   \<and> lastSyncedAt tied_task = Some at_0700 \<and> at_0700 < at_0800
   \<and> Some 7 \<in> set (map push_attempt_of (log_since tied_pulled
          (fst (push_to_google morning_env (synced_user at_0700) \<lparr> timezone = None \<rparr> ''work''
                  tied_pulled))))"
proof -
  have a1: "ev_id remote_edit = Some ''ev-7''" by (simp add: remote_edit_simps)
  have a2: "''ev-7'' \<noteq> []" by simp
  have a3: "find_task_by_event (user_id (synced_user at_0700)) ''ev-7''
         (tasks (morning_state [stale_task])) = Some stale_task"
    by (simp add: find_task_by_event_def morning_state_def stale_task_simps user_simps)
  have b3: "find_task_by_event (user_id (synced_user at_0700)) ''ev-7''
         (tasks (morning_state [tied_task])) = Some tied_task"
    by (simp add: find_task_by_event_def morning_state_def tied_task_simps user_simps)
  have a4: "distinct (map task_id (tasks (morning_state [x])))" for x
    by (simp add: morning_state_def)
  have a5: "event_times (env_tz morning_env) (prefs_of (synced_user at_0700)) remote_edit
       = Inr (Some (example_due, None))"
    by (simp add: remote_edit_simps)
  have a6: "event_updated_at remote_edit = Inr (Some at_0800)"
    by (simp add: remote_edit_simps)
  have a7: "updatedAt stale_task = Some at_0730" by (simp add: stale_task_simps)
  have b7: "updatedAt tied_task = Some at_0800" by (simp add: tied_task_simps)
  have a8: "stale_task \<in> set (tasks (morning_state [stale_task]))"
    by (simp add: morning_state_def)
  have b8: "tied_task \<in> set (tasks tied_pulled)" by (simp add: tied_pulled_eval)
  have b9: "distinct (map task_id (tasks tied_pulled))" by (simp add: tied_pulled_eval)
  have lt: "at_0730 < at_0800" "at_0700 < at_0800" by (simp_all add: at_0700_def at_0730_def at_0800_def)
  have now: "env_utcnow morning_env (trace (morning_state [x])) = at_0900" for x
    by (simp add: morning_env_simps morning_state_def)
  have f: "dueDate tied_task \<noteq> None" "status tied_task = Some ''scheduled''"
      "syncToCalendar tied_task = Some True" "lastSyncedAt tied_task = Some at_0700"
    by (simp_all add: tied_task_def stale_task_def example_task_def)
  show ?thesis
    using pull_last_write_wins[OF a1 a2 a3 a4 a5 a6 a7 a8 a4, of "''work''" 0]
      pull_last_write_wins[OF a1 a2 b3 a4 a5 a6 b7 b8 b9, of "''work''" 0
        "\<lparr> timezone = None \<rparr>" "''work''"]
      a1 a3 a4 a5 a6 a7 b3 b7 b8 b9 lt now f
    by (simp add: morning_state_def remote_edit_simps tied_task_simps)
qed

lemma pull_event_keeps:
  "pull_event e u c ev sc = Inr sc' \<Longrightarrow>
   users (fst sc') = users (fst sc) \<and> log (fst sc') = log (fst sc) \<and> lists (fst sc') = lists (fst sc)"
  by (auto simp: pull_event_def Let_def utcnow_def
           split: if_splits sum.splits option.splits prod.splits)

lemma pull_events_keeps:
  "pull_events e u c evs sc = (r, sc') \<Longrightarrow>
   users (fst sc') = users (fst sc) \<and> log (fst sc') = log (fst sc) \<and> lists (fst sc') = lists (fst sc)"
proof (induction evs arbitrary: sc)
  case Nil
  then show ?case by simp
next
  case (Cons ev evs)
  show ?case
  proof (cases "pull_event e u c ev sc")
    case (Inl ex)
    with Cons.prems show ?thesis by simp
  next
    case (Inr sc1)
    with Cons.prems have "pull_events e u c evs sc1 = (r, sc')" by simp
    from Cons.IH[OF this] pull_event_keeps[OF Inr] show ?thesis by simp
  qed
qed

lemma pull_calendars_users:
  "pull_calendars e u tmin tmax cals sc = (aborted, sc') \<Longrightarrow>
   (\<exists>ens. log (fst sc') = ens @ log (fst sc)
      \<and> (aborted \<longleftrightarrow> (\<exists>en \<in> set ens. is_revoked_entry en))
      \<and> (\<forall>en \<in> set ens. is_revoked_entry en \<or> is_pull_error en))
   \<and> users (fst sc') = (if aborted then update_user (user_id u) clear_revoked (users (fst sc))
                         else users (fst sc))"
proof (induction cals arbitrary: sc)
  case Nil
  then show ?case by auto
next
  case (Cons cal cals)
  obtain r s1 where l: "events_list e cal tmin tmax (fst sc) = (r, s1)" by (cases "events_list e cal tmin tmax (fst sc)")
  have s1: "users s1 = users (fst sc)" "log s1 = log (fst sc)"
    using l by (auto simp: events_list_def Let_def)
  obtain raised sc2 where h: "(case r of Inl ex \<Rightarrow> (Some ex, (s1, snd sc))
            | Inr events \<Rightarrow> pull_events e u cal events (s1, snd sc)) = (raised, sc2)"
    by (cases "(case r of Inl ex \<Rightarrow> (Some ex, (s1, snd sc))
            | Inr events \<Rightarrow> pull_events e u cal events (s1, snd sc))")
  have s2: "users (fst sc2) = users (fst sc)" "log (fst sc2) = log (fst sc)"
    using h s1 by (auto split: sum.splits dest: pull_events_keeps)
  show ?case
  proof (cases raised)
    case None
    with Cons.prems l h have "pull_calendars e u tmin tmax cals sc2 = (aborted, sc')"
      by simp
    from Cons.IH[OF this] s2 show ?thesis by simp
  next
    case (Some ex)
    show ?thesis
    proof (cases "is_auth_error (exc_str ex)")
      case True
      with Cons.prems l h Some s2 show ?thesis
        by auto
    next
      case False
      let ?sc3 = "((fst sc2)\<lparr> log := PullError cal ex # log (fst sc2) \<rparr>, snd sc2)"
      from False Cons.prems l h Some
      have "pull_calendars e u tmin tmax cals ?sc3 = (aborted, sc')" by simp
      from Cons.IH[OF this] s2 show ?thesis by auto
    qed
  qed
qed

lemma listed_calendars_append:
  "listed_calendars (a @ b) = listed_calendars a @ listed_calendars b"
  by (induction a rule: listed_calendars.induct) auto

lemma listed_calendars_none:
  "listed_calendars tr = [] \<longleftrightarrow> (\<forall>x \<in> set tr. \<not> is_list_call x)"
  by (induction tr rule: listed_calendars.induct) auto

lemma pull_event_trace:
  "pull_event e u c ev sc = Inr sc' \<Longrightarrow>
   \<exists>tr. trace (fst sc') = tr @ trace (fst sc) \<and> (\<forall>x \<in> set tr. \<not> is_list_call x)
        \<and> filter is_write tr = []"
  by (auto simp: pull_event_def Let_def utcnow_def
           split: if_splits sum.splits option.splits prod.splits)

lemma pull_events_trace:
  "pull_events e u c evs sc = (r, sc') \<Longrightarrow>
   \<exists>tr. trace (fst sc') = tr @ trace (fst sc) \<and> (\<forall>x \<in> set tr. \<not> is_list_call x)
        \<and> filter is_write tr = []"
proof (induction evs arbitrary: sc)
  case Nil
  then show ?case by (simp add:)
next
  case (Cons ev evs)
  show ?case
  proof (cases "pull_event e u c ev sc")
    case (Inl ex)
    with Cons.prems show ?thesis by (simp add:)
  next
    case (Inr sc1)
    with Cons.prems have "pull_events e u c evs sc1 = (r, sc')" by simp
    from Cons.IH[OF this] pull_event_trace[OF Inr] show ?thesis
      by (auto simp: ball_Un)
  qed
qed

lemma pull_calendars_trace:
  "pull_calendars e u tmin tmax cals sc = (aborted, sc') \<Longrightarrow>
   \<exists>tr. trace (fst sc') = tr @ trace (fst sc) \<and> filter is_write tr = []
        \<and> (\<not> aborted \<longrightarrow> listed_calendars (rev tr) = cals)"
proof (induction cals arbitrary: sc)
  case Nil
  then show ?case by (auto simp:)
next
  case (Cons cal cals)
  obtain r s1 where l: "events_list e cal tmin tmax (fst sc) = (r, s1)" by (cases "events_list e cal tmin tmax (fst sc)")
  have s1: "trace s1 = ListEvents cal tmin tmax r # trace (fst sc)"
    using l by (auto simp: events_list_def Let_def)
  obtain raised sc2 where h: "(case r of Inl ex \<Rightarrow> (Some ex, (s1, snd sc))
            | Inr events \<Rightarrow> pull_events e u cal events (s1, snd sc)) = (raised, sc2)"
    by (cases "(case r of Inl ex \<Rightarrow> (Some ex, (s1, snd sc))
            | Inr events \<Rightarrow> pull_events e u cal events (s1, snd sc))")
  obtain tr2 where s2: "trace (fst sc2) = tr2 @ trace s1" "(\<forall>x \<in> set tr2. \<not> is_list_call x)"
      "filter is_write tr2 = []"
  proof (cases r)
    case (Inl ex)
    with h have "trace (fst sc2) = [] @ trace s1" by auto
    then show ?thesis using that by (simp add:)
  next
    case (Inr events)
    with h have "pull_events e u cal events (s1, snd sc) = (raised, sc2)" by simp
    from pull_events_trace[OF this] show ?thesis using that by auto
  qed
  have step: "pull_calendars e u tmin tmax cals sc3 = (aborted, sc') \<Longrightarrow> trace (fst sc3) = trace (fst sc2)
     \<Longrightarrow> ?case" for sc3
  proof -
    assume a: "pull_calendars e u tmin tmax cals sc3 = (aborted, sc')" and b: "trace (fst sc3) = trace (fst sc2)"
    from Cons.IH[OF a] obtain tr where tr: "trace (fst sc') = tr @ trace (fst sc3)" "filter is_write tr = []"
       "\<not> aborted \<longrightarrow> listed_calendars (rev tr) = cals" by auto
    show ?case
      apply (rule exI[of _ "tr @ tr2 @ [ListEvents cal tmin tmax r]"])
      using tr s1 s2 b
      by (auto simp: listed_calendars_append listed_calendars_none)
  qed
  show ?case
  proof (cases raised)
    case None
    with Cons.prems l h have "pull_calendars e u tmin tmax cals sc2 = (aborted, sc')"
      by simp
    then show ?thesis by (rule step) simp
  next
    case (Some ex)
    show ?thesis
    proof (cases "is_auth_error (exc_str ex)")
      case True
      with Cons.prems l h Some have "aborted" "trace (fst sc') = trace (fst sc2)" by auto
      then show ?thesis using s1 s2 by auto
    next
      case False
      let ?sc3 = "((fst sc2)\<lparr> log := PullError cal ex # log (fst sc2) \<rparr>, snd sc2)"
      from False Cons.prems l h Some
      have "pull_calendars e u tmin tmax cals ?sc3 = (aborted, sc')" by simp
      then show ?thesis by (rule step) simp
    qed
  qed
qed








subsection \<open>Calendar selection\<close>

lemma delete_task_distinct:
  "distinct (map task_id ts) \<Longrightarrow> delete_task i ts = filter (\<lambda>t. task_id t \<noteq> i) ts"
  by (induction ts) (auto simp: image_iff intro!: filter_id_conv[THEN iffD2, symmetric])

lemma delete_deselected_filter:
  "distinct (map task_id all) \<Longrightarrow>
   delete_deselected D ts (all, n) =
     (filter (\<lambda>t. task_id t \<notin> task_id ` {x \<in> set ts. \<exists>c \<in> D. googleCalendarId x = Val c}) all,
      n + length (filter (\<lambda>x. \<exists>c \<in> D. googleCalendarId x = Val c) ts))"
proof (induction ts arbitrary: all n)
  case Nil
  then show ?case by simp
next
  case (Cons t ts)
  show ?case
  proof (cases "googleCalendarId t")
    case (Val c)
    show ?thesis
    proof (cases "c \<in> D")
      case True
      have d: "distinct (map task_id (filter (\<lambda>x. task_id x \<noteq> task_id t) all))"
        using Cons.prems by (simp add: distinct_map_filter)
      have "delete_deselected D (t # ts) (all, n) =
              delete_deselected D ts (filter (\<lambda>x. task_id x \<noteq> task_id t) all, n + 1)"
        using Val True Cons.prems by (simp add: delete_task_distinct)
      also have "\<dots> = (filter (\<lambda>x. task_id x \<notin> task_id ` {x \<in> set ts. \<exists>c \<in> D. googleCalendarId x = Val c})
                          (filter (\<lambda>x. task_id x \<noteq> task_id t) all),
                        n + 1 + length (filter (\<lambda>x. \<exists>c \<in> D. googleCalendarId x = Val c) ts))"
        using Cons.IH[OF d] by simp
      finally show ?thesis using Val True
        by (auto simp: image_iff intro!: filter_cong)
    next
      case False
      then show ?thesis using Val Cons.IH[OF Cons.prems]
        by (auto simp: image_iff intro!: filter_cong)
    qed
  next
    case Absent
    then show ?thesis using Cons.IH[OF Cons.prems] by (auto simp: image_iff intro!: filter_cong)
  next
    case Null
    then show ?thesis using Cons.IH[OF Cons.prems] by (auto simp: image_iff intro!: filter_cong)
  qed
qed

text \<open>
  Claim C8. Changing the calendar selection deletes exactly the user's tasks whose
  \<open>googleCalendarId\<close> is one of the deselected calendars (the previous selection,
  \<open>["primary"]\<close> when there is none, minus the new one); every other task, of this or
  another user, stays in the store as it was.
\<close>

theorem deselection_cleanup:
  assumes "distinct (map task_id (tasks s))"
  shows "tasks (fst (select_calendars newly_selected current_user s)) =
           filter (\<lambda>t. \<not> (user t = user_id current_user
                          \<and> (\<exists>c \<in> deselected_calendars current_user newly_selected.
                                googleCalendarId t = Val c))) (tasks s)
       \<and> snd (select_calendars newly_selected current_user s) =
           length (filter (\<lambda>t. user t = user_id current_user
                          \<and> (\<exists>c \<in> deselected_calendars current_user newly_selected.
                                googleCalendarId t = Val c)) (tasks s))"
proof -
  let ?D = "deselected_calendars current_user newly_selected"
  let ?P = "\<lambda>x. \<exists>c \<in> ?D. googleCalendarId x = Val c"
  let ?ts = "find_user_tasks (user_id current_user) (tasks s)"
  have inj: "inj_on task_id (set (tasks s))" using assms by (simp add: distinct_map)
  have key: "t \<in> set (tasks s) \<Longrightarrow>
       (task_id t \<notin> task_id ` {x \<in> set ?ts. ?P x}) = (\<not> (user t = user_id current_user \<and> ?P t))" for t
    using inj by (auto simp: find_user_tasks_def dest: inj_onD)
  have f: "filter (\<lambda>t. task_id t \<notin> task_id ` {x \<in> set ?ts. ?P x}) (tasks s)
         = filter (\<lambda>t. \<not> (user t = user_id current_user \<and> ?P t)) (tasks s)"
    by (rule filter_cong) (simp_all add: key)
  have n: "length (filter ?P ?ts)
         = length (filter (\<lambda>t. user t = user_id current_user \<and> ?P t) (tasks s))"
    by (simp add: find_user_tasks_def conj_commute)
  show ?thesis
  proof (cases "?D = {}")
    case True
    then show ?thesis by (simp add: select_calendars_def Let_def)
  next
    case False
    then show ?thesis
      using delete_deselected_filter[OF assms, of ?D ?ts 0] f n
      by (simp add: select_calendars_def Let_def)
  qed
qed

theorem deselection_cleanup_witness:
  "distinct (map task_id (tasks (example_state ab_tasks)))
   \<and> deselected_calendars ab_user [''A''] = {''B''}
   \<and> tasks (fst (select_calendars [''A''] ab_user (example_state ab_tasks)))
       = [calendar_task 1 ''A'', calendar_task 3 ''A'', example_task 5]
   \<and> snd (select_calendars [''A''] ab_user (example_state ab_tasks)) = 2"
proof -
  have d: "distinct (map task_id (tasks (example_state ab_tasks)))"
    by (simp add: example_state_def ab_tasks_def calendar_task_def example_task_def)
  have D: "deselected_calendars ab_user [''A''] = {''B''}"
    by (auto simp: deselected_calendars_def selected_or_primary_def ab_user_def example_user_def)
  have c: "googleCalendarId (calendar_task i c) = Val c" "user (calendar_task i c) = 1"
      "googleCalendarId (example_task i) = Null" "user_id ab_user = 1" for i c
    by (simp_all add: calendar_task_def example_task_def ab_user_def example_user_def)
  show ?thesis
    using deselection_cleanup[OF d, of "[''A'']" ab_user] d D
    by (simp add: c example_state_def ab_tasks_def)
qed

subsection \<open>Remote time to local time\<close>

lemma fromiso_naive: "fromisoformat ''2026-01-09T14:30:00'' = Inr (jan9_1430, None)"
  by (simp add: parse_defs jan9_1430_def)

lemma fromiso_utc: "fromisoformat ''2026-01-09T14:30:00+00:00'' = Inr (jan9_1430, Some 0)"
  by (simp add: parse_defs jan9_1430_def)

lemma micros_jan9_1430: "to_micros jan9_1430 = 1767969000000000"
  by code_simp

lemma from_micros_1430: "from_micros 1767969000000000 = jan9_1430"
  by code_simp

lemma from_micros_0730: "from_micros 1767943800000000 = jan9_0730"
  by code_simp

lemma hm_1430: "strftime_HM jan9_1430 = ''14:30''"
  by code_simp

lemma hm_0730: "strftime_HM jan9_0730 = ''07:30''"
  by code_simp

lemma midnight_jan9: "midnight jan9_1430 = jan9" "midnight jan9_0730 = jan9"
  by (simp_all add: midnight_def jan9_def jan9_1430_def jan9_0730_def)

lemma convert_naive:
  assumes "no_marker s" and "fromisoformat s = Inr (d, None)"
  shows "convert_event_time_to_user_tz tzs s prefs =
           Inr (midnight (fst (astimezone (zone_of tzs prefs) (localize (zone_of tzs prefs) d))),
                strftime_HM (fst (astimezone (zone_of tzs prefs) (localize (zone_of tzs prefs) d))))"
proof -
  have c: "\<not> (s \<noteq> [] \<and> last s = CHR ''Z'')"
      "\<not> (CHR ''+'' \<in> set s \<or> (count_char CHR ''-'' s > 2 \<and> CHR ''T'' \<in> set s))"
    using assms(1) by (auto simp: no_marker_def)
  show ?thesis
    unfolding convert_event_time_to_user_tz_def zone_of_def
    by (simp only: c if_False assms(2) Let_def sum.case prod.case option.case snd_conv
          localize_def)
qed

lemma convert_unknown_zone:
  assumes "tz_lookup tzs (user_tz_str prefs) = None"
  shows "convert_event_time_to_user_tz tzs s prefs =
         convert_event_time_to_user_tz (tzs\<lparr> tz_lookup := (\<lambda>n. Some tz_UTC) \<rparr>) s prefs"
proof -
  have a: "system_local (tzs\<lparr> tz_lookup := (\<lambda>n. Some tz_UTC) \<rparr>) = system_local tzs"
    by simp
  have b: "tz_lookup (tzs\<lparr> tz_lookup := (\<lambda>n. Some tz_UTC) \<rparr>) n = Some tz_UTC" for n
    by simp
  show ?thesis
    unfolding convert_event_time_to_user_tz_def
    by (simp only: assms a b option.case)
qed

text \<open>
  Claim C6. A time string without a zone marker (no trailing \<open>Z\<close>, no \<open>+\<close>, and not
  both more than two \<open>-\<close> and a \<open>T\<close>) is localized to the user's zone, so wherever
  the zone's two offsets agree the result is the date and the \<open>HH:MM\<close> written in the
  string, whatever the offset is. In any zone database that has America/Denver at seven
  hours behind UTC on 2026-01-09, the naive \<open>2026-01-09T14:30:00\<close> gives 2026-01-09 and
  \<open>14:30\<close>, and the same with \<open>Z\<close> gives \<open>07:30\<close>. A zone name the database does not
  know gives what UTC gives.
\<close>

theorem naive_time_is_local:
  "(no_marker s \<longrightarrow> fromisoformat s = Inr (d, None) \<longrightarrow>
      utcoffset_at_utc (zone_of tzs prefs)
          (to_micros d - minutes_us (utcoffset_at_local (zone_of tzs prefs) (to_micros d)))
        = utcoffset_at_local (zone_of tzs prefs) (to_micros d) \<longrightarrow>
      convert_event_time_to_user_tz tzs s prefs =
        Inr (midnight (from_micros (to_micros d)), strftime_HM (from_micros (to_micros d))))
   \<and> (tz_lookup tzs ''America/Denver'' = Some z \<longrightarrow>
        utcoffset_at_local z (to_micros jan9_1430) = - 420 \<longrightarrow>
        utcoffset_at_utc z (to_micros jan9_1430 + minutes_us 420) = - 420 \<longrightarrow>
        utcoffset_at_utc z (to_micros jan9_1430) = - 420 \<longrightarrow>
        convert_event_time_to_user_tz tzs ''2026-01-09T14:30:00''
            \<lparr> timezone = Some ''America/Denver'' \<rparr> = Inr (jan9, ''14:30'')
        \<and> convert_event_time_to_user_tz tzs ''2026-01-09T14:30:00Z''
            \<lparr> timezone = Some ''America/Denver'' \<rparr> = Inr (jan9, ''07:30''))
   \<and> (tz_lookup tzs (user_tz_str prefs) = None \<longrightarrow>
        convert_event_time_to_user_tz tzs s prefs =
          convert_event_time_to_user_tz (tzs\<lparr> tz_lookup := (\<lambda>n. Some tz_UTC) \<rparr>) s prefs)"
proof (intro conjI impI)
  assume a: "no_marker s" "fromisoformat s = Inr (d, None)"
    and c: "utcoffset_at_utc (zone_of tzs prefs)
          (to_micros d - minutes_us (utcoffset_at_local (zone_of tzs prefs) (to_micros d)))
        = utcoffset_at_local (zone_of tzs prefs) (to_micros d)"
  have "fst (astimezone (zone_of tzs prefs) (localize (zone_of tzs prefs) d)) = from_micros (to_micros d)"
    using c by (simp add: astimezone_def localize_def Let_def)
  then show "convert_event_time_to_user_tz tzs s prefs =
        Inr (midnight (from_micros (to_micros d)), strftime_HM (from_micros (to_micros d)))"
    using convert_naive[OF a] by simp
next
  assume z: "tz_lookup tzs ''America/Denver'' = Some z"
    and l: "utcoffset_at_local z (to_micros jan9_1430) = - 420"
    and u1: "utcoffset_at_utc z (to_micros jan9_1430 + minutes_us 420) = - 420"
  have zo: "zone_of tzs \<lparr> timezone = Some ''America/Denver'' \<rparr> = z"
    using z by (simp add: zone_of_def user_tz_str_def)
  have nm: "no_marker ''2026-01-09T14:30:00''"
    by (simp add: no_marker_def count_char_def)
  have "fst (astimezone z (localize z jan9_1430)) = jan9_1430"
    using l u1 by (simp add: astimezone_def localize_def Let_def micros_jan9_1430 minutes_us_def
          from_micros_1430)
  then show "convert_event_time_to_user_tz tzs ''2026-01-09T14:30:00''
            \<lparr> timezone = Some ''America/Denver'' \<rparr> = Inr (jan9, ''14:30'')"
    using convert_naive[OF nm fromiso_naive, of tzs "\<lparr> timezone = Some ''America/Denver'' \<rparr>"] zo
    by (simp add: hm_1430 midnight_jan9)
next
  assume z: "tz_lookup tzs ''America/Denver'' = Some z"
    and u2: "utcoffset_at_utc z (to_micros jan9_1430) = - 420"
  have "fst (astimezone z (jan9_1430, 0)) = jan9_0730"
    using u2 by (simp add: astimezone_def Let_def micros_jan9_1430 minutes_us_def from_micros_0730)
  then show "convert_event_time_to_user_tz tzs ''2026-01-09T14:30:00Z''
            \<lparr> timezone = Some ''America/Denver'' \<rparr> = Inr (jan9, ''07:30'')"
    using z
    by (simp add: convert_event_time_to_user_tz_def user_tz_str_def fromiso_utc Let_def
          hm_0730 midnight_jan9)
next
  assume "tz_lookup tzs (user_tz_str prefs) = None"
  then show "convert_event_time_to_user_tz tzs s prefs =
          convert_event_time_to_user_tz (tzs\<lparr> tz_lookup := (\<lambda>n. Some tz_UTC) \<rparr>) s prefs"
    by (rule convert_unknown_zone)
qed

theorem naive_time_is_local_witness:
  "no_marker ''2026-01-09T14:30:00''
   \<and> fromisoformat ''2026-01-09T14:30:00'' = Inr (jan9_1430, None)
   \<and> tz_lookup denver_zones ''America/Denver'' = Some mountain_standard
   \<and> convert_event_time_to_user_tz denver_zones ''2026-01-09T14:30:00''
         \<lparr> timezone = Some ''America/Denver'' \<rparr> = Inr (jan9, ''14:30'')
   \<and> convert_event_time_to_user_tz denver_zones ''2026-01-09T14:30:00Z''
         \<lparr> timezone = Some ''America/Denver'' \<rparr> = Inr (jan9, ''07:30'')
   \<and> tz_lookup denver_zones (user_tz_str \<lparr> timezone = Some ''Mars/Olympus'' \<rparr>) = None
   \<and> convert_event_time_to_user_tz denver_zones ''2026-01-09T14:30:00Z''
         \<lparr> timezone = Some ''Mars/Olympus'' \<rparr> = Inr (jan9, ''14:30'')"
proof -
  have nm: "no_marker ''2026-01-09T14:30:00''"
    by (simp add: no_marker_def count_char_def)
  have z: "tz_lookup denver_zones ''America/Denver'' = Some mountain_standard"
    by (simp add: denver_zones_def)
  have o: "utcoffset_at_local mountain_standard t = - 420"
      "utcoffset_at_utc mountain_standard t = - 420" for t
    by (simp_all add: mountain_standard_def)
  have m: "tz_lookup denver_zones (user_tz_str \<lparr> timezone = Some ''Mars/Olympus'' \<rparr>) = None"
    by (simp add: denver_zones_def user_tz_str_def)
  have "fst (astimezone tz_UTC (jan9_1430, 0)) = jan9_1430"
    by (simp add: astimezone_def Let_def tz_UTC_def micros_jan9_1430 minutes_us_def
          from_micros_1430)
  then have u: "convert_event_time_to_user_tz (denver_zones\<lparr> tz_lookup := (\<lambda>n. Some tz_UTC) \<rparr>)
          ''2026-01-09T14:30:00Z'' \<lparr> timezone = Some ''Mars/Olympus'' \<rparr> = Inr (jan9, ''14:30'')"
    by (simp add: convert_event_time_to_user_tz_def fromiso_utc Let_def hm_1430 midnight_jan9)
  show ?thesis
    using naive_time_is_local[of "''2026-01-09T14:30:00''" jan9_1430 denver_zones
            "\<lparr> timezone = Some ''America/Denver'' \<rparr>" mountain_standard]
          naive_time_is_local[of "''2026-01-09T14:30:00Z''" jan9_1430 denver_zones
            "\<lparr> timezone = Some ''Mars/Olympus'' \<rparr>" mountain_standard]
          nm fromiso_naive z o m u
    by simp
qed

subsection \<open>Two cycles in a row\<close>

lemma clock_mono_append:
  "clock_mono e \<Longrightarrow> env_utcnow e h \<le> env_utcnow e (tr @ h)"
proof (induction tr)
  case Nil
  then show ?case by simp
next
  case (Cons x tr)
  then have "env_utcnow e (tr @ h) \<le> env_utcnow e (x # tr @ h)" by (simp add: clock_mono_def)
  with Cons show ?case by simp
qed

lemma not_future_grow:
  assumes "clock_mono e" and "not_future A e s"
    and "\<forall>t \<in> set (tasks s'). \<forall>ua. updatedAt t = Some ua \<longrightarrow>
           (\<exists>t0 \<in> set (tasks s). task_id t0 = task_id t \<and> updatedAt t0 = Some ua)
           \<or> ua \<le> env_utcnow e (trace s')"
    and "trace s' = tr @ trace s"
  shows "not_future A e s'"
  unfolding not_future_def
proof (intro ballI allI impI)
  fix t ua assume t: "t \<in> set (tasks s')" "task_id t \<notin> A" "updatedAt t = Some ua"
  from assms(3) t consider
      "\<exists>t0 \<in> set (tasks s). task_id t0 = task_id t \<and> updatedAt t0 = Some ua"
    | "ua \<le> env_utcnow e (trace s')"
    by blast
  then show "ua \<le> env_utcnow e (trace s')"
  proof cases
    case 1
    then have "ua \<le> env_utcnow e (trace s)" using assms(2) t(2) by (auto simp: not_future_def)
    also have "\<dots> \<le> env_utcnow e (trace s')" using clock_mono_append[OF assms(1)] assms(4) by simp
    finally show ?thesis .
  next
    case 2
    then show ?thesis .
  qed
qed

lemma find_task_by_event_linked:
  "find_task_by_event uid eid ts \<noteq> None \<longleftrightarrow> linked uid ts eid"
  by (auto simp: find_task_by_event_def linked_def find_None_iff)

lemma map_task_id_update:
  "(\<And>t. task_id (f t) = task_id t) \<Longrightarrow> map task_id (update_task i f ts) = map task_id ts"
  by (induction ts) auto

lemma set_update_task:
  "x \<in> set (update_task i f ts) \<Longrightarrow> x \<in> set ts \<or> (\<exists>t \<in> set ts. task_id t = i \<and> x = f t)"
  by (induction ts) (auto split: if_splits)

lemma update_task_covers:
  "t \<in> set ts \<Longrightarrow> t \<in> set (update_task i f ts) \<or> f t \<in> set (update_task i f ts)"
  by (induction ts) auto

lemma length_update_task: "length (update_task i f ts) = length ts"
  by (induction ts) auto

lemma map_updatedAt_update:
  "(\<And>t. updatedAt (f t) = updatedAt t) \<Longrightarrow> map updatedAt (update_task i f ts) = map updatedAt ts"
  by (induction ts) auto

lemma fresh_task_id_new: "fresh_task_id ts \<notin> set (map task_id ts)"
proof -
  have "i \<in> set xs \<Longrightarrow> i \<le> foldr max xs (0::nat)" for i xs
    by (induction xs) auto
  then have "\<And>i. i \<in> set (map task_id ts) \<Longrightarrow> i < fresh_task_id ts"
    unfolding fresh_task_id_def by (meson le_imp_less_Suc)
  then show ?thesis by blast
qed

lemma pull_overwrite_simps:
  "task_id (pull_overwrite ev d tm now t) = task_id t"
  "user (pull_overwrite ev d tm now t) = user t"
  "googleEventId (pull_overwrite ev d tm now t) = googleEventId t"
  "updatedAt (pull_overwrite ev d tm now t) = updatedAt t"
  "lastSyncedAt (pull_overwrite ev d tm now t) = Some now"
  "status (pull_overwrite ev d tm now t) = status t"
  "syncToCalendar (pull_overwrite ev d tm now t) = syncToCalendar t"
  by (simp_all add: pull_overwrite_def)

lemma new_task_simps:
  "task_id (new_task_from_event i uid inbox eid c ev d tm t1 t2 t3) = i"
  "updatedAt (new_task_from_event i uid inbox eid c ev d tm t1 t2 t3) = Some t3"
  by (simp_all add: new_task_from_event_def)

lemma pull_event_cases:
  assumes "pull_event e u c ev (s, n) = Inr (s', n')"
  shows "(s' = s \<and> n' = n)
       \<or> (\<exists>t d tm eid. ev_id ev = Some eid \<and> eid \<noteq> []
             \<and> find_task_by_event (user_id u) eid (tasks s) = Some t
             \<and> s' = s\<lparr> trace := Now (now1 e s) # trace s,
                       tasks := update_task (task_id t)
                                  (pull_overwrite ev d tm (now1 e s)) (tasks s) \<rparr>
             \<and> n' = n + 1)
       \<or> (\<exists>d tm eid. ev_id ev = Some eid \<and> eid \<noteq> []
             \<and> find_task_by_event (user_id u) eid (tasks s) = None
             \<and> s' = s\<lparr> trace := Now (now3 e s) # Now (now2 e s) # Now (now1 e s) # trace s,
                       tasks := tasks s @
                         [new_task_from_event (fresh_task_id (tasks s)) (user_id u)
                            (map_option list_id (find_inbox (user_id u) (lists s)))
                            eid c ev d tm (now1 e s) (now2 e s) (now3 e s)] \<rparr>
             \<and> n' = n + 1)"
proof (cases "ev_id ev")
  case None
  with assms show ?thesis by (simp add: pull_event_def)
next
  case (Some eid)
  show ?thesis
  proof (cases "eid = []")
    case True
    with Some assms show ?thesis by (simp add: pull_event_def)
  next
    case False
    show ?thesis
    proof (cases "find_task_by_event (user_id u) eid (tasks s)")
      case None
      with Some False assms show ?thesis
        by (auto simp: pull_event_def Let_def utcnow_def now1_def now2_def now3_def
              split: sum.splits option.splits prod.splits if_splits)
    next
      case (Some t)
      with \<open>ev_id ev = Some eid\<close> False assms show ?thesis
        by (auto simp: pull_event_def Let_def utcnow_def now1_def
              split: sum.splits option.splits prod.splits if_splits)
    qed
  qed
qed

lemma classify_overwritten:
  assumes "truthy_str (googleEventId t)" and "\<forall>ua. updatedAt t = Some ua \<longrightarrow> ua \<le> now"
  shows "classify (pull_overwrite ev d tm now t) \<noteq> ToPush"
  using assms by (auto simp: classify_def pull_overwrite_def split: option.splits)

lemma pull_event_store_ok:
  assumes "pull_event e u c ev (s, n) = Inr (s', n')" and "clock_mono e" and "store_ok A e s"
  shows "store_ok A e s' \<and> (\<exists>tr. trace s' = tr @ trace s)"
  using pull_event_cases[OF assms(1)]
proof (elim disjE exE conjE, goal_cases)
  case 1
  with assms(3) show ?case by simp
next
  case (2 t d tm eid)
  have d: "distinct (map task_id (tasks s'))"
    using assms(3) 2 by (simp add: store_ok_def map_task_id_update pull_overwrite_simps)
  have tr: "trace s' = [Now (now1 e s)] @ trace s" using 2 by simp
  have "not_future A e s'"
  proof (rule not_future_grow[OF assms(2) _ _ tr])
    show "not_future A e s" using assms(3) by (simp add: store_ok_def)
    show "\<forall>t\<in>set (tasks s'). \<forall>ua. updatedAt t = Some ua \<longrightarrow>
            (\<exists>t0\<in>set (tasks s). task_id t0 = task_id t \<and> updatedAt t0 = Some ua)
            \<or> ua \<le> env_utcnow e (trace s')"
      using 2 by (auto dest!: set_update_task simp: pull_overwrite_simps)
  qed
  with d tr show ?case by (auto simp: store_ok_def)
next
  case (3 d tm eid)
  have d: "distinct (map task_id (tasks s'))"
    using assms(3) 3 fresh_task_id_new[of "tasks s"] by (simp add: store_ok_def new_task_simps)
  have tr: "trace s' = [Now (now3 e s), Now (now2 e s), Now (now1 e s)] @ trace s"
    using 3 by simp
  have "not_future A e s'"
  proof (rule not_future_grow[OF assms(2) _ _ tr])
    show "not_future A e s" using assms(3) by (simp add: store_ok_def)
    have "now3 e s \<le> env_utcnow e (trace s')"
      using assms(2) 3 by (simp add: clock_mono_def now3_def)
    then show "\<forall>t\<in>set (tasks s'). \<forall>ua. updatedAt t = Some ua \<longrightarrow>
            (\<exists>t0\<in>set (tasks s). task_id t0 = task_id t \<and> updatedAt t0 = Some ua)
            \<or> ua \<le> env_utcnow e (trace s')"
      using 3 by (auto simp: new_task_simps)
  qed
  with d tr show ?case by (auto simp: store_ok_def)
qed

lemma pull_event_in_sync:
  assumes "pull_event e u c ev (s, n) = Inr (s', n')" and "store_ok A e s"
    and "in_sync A (user_id u) (tasks s)"
    and "\<forall>eid. ev_id ev = Some eid \<longrightarrow> eid \<noteq> [] \<longrightarrow> linked (user_id u) (tasks s) eid"
  shows "length (tasks s') = length (tasks s) \<and> in_sync A (user_id u) (tasks s')
       \<and> (\<forall>eid. linked (user_id u) (tasks s) eid \<longrightarrow> linked (user_id u) (tasks s') eid)
       \<and> map updatedAt (tasks s') = map updatedAt (tasks s)"
  using pull_event_cases[OF assms(1)]
proof (elim disjE exE conjE, goal_cases)
  case 1
  with assms(3) show ?case by simp
next
  case (2 t d tm eid)
  let ?f = "pull_overwrite ev d tm (now1 e s)"
  have m: "t \<in> set (tasks s)" "googleEventId t = Some eid"
    using 2 by (auto simp: find_task_by_event_def find_Some_iff)
  have up: "tasks s' = map (\<lambda>x. if x = t then ?f x else x) (tasks s)"
    using 2 assms(2) m(1) by (simp add: store_ok_def update_task_same)
  have nf: "\<forall>ua. updatedAt t = Some ua \<longrightarrow> ua \<le> now1 e s" if "task_id t \<notin> A"
    using assms(2) m(1) that by (auto simp: store_ok_def not_future_def now1_def)
  have c: "classify (?f t) \<noteq> ToPush" if "task_id t \<notin> A"
    by (rule classify_overwritten) (use m(2) 2 nf[OF that] in auto)
  have "task_id t \<in> A" if "classify (?f t) = ToPush"
    using c that by blast
  then have i: "in_sync A (user_id u) (tasks s')"
    using assms(3) by (auto simp: in_sync_def up pull_overwrite_simps)
  have l: "linked (user_id u) (tasks s) x \<Longrightarrow> linked (user_id u) (tasks s') x" for x
  proof -
    assume "linked (user_id u) (tasks s) x"
    then obtain t0 where t0: "t0 \<in> set (tasks s)" "user t0 = user_id u" "googleEventId t0 = Some x"
      by (auto simp: linked_def)
    show ?thesis
    proof (cases "t0 = t")
      case True
      then have "?f t0 \<in> set (tasks s')" using t0(1) by (auto simp: up)
      then show ?thesis using t0 by (auto simp: linked_def pull_overwrite_simps intro!: bexI[of _ "?f t0"])
    next
      case False
      then have "t0 \<in> set (tasks s')" using t0(1) by (auto simp: up)
      then show ?thesis using t0 by (auto simp: linked_def)
    qed
  qed
  have u: "map updatedAt (tasks s') = map updatedAt (tasks s)"
    by (simp add: up pull_overwrite_simps comp_def cong: if_cong)
  show ?case using i l u by (simp add: up)
next
  case (3 d tm eid)
  then have "\<not> linked (user_id u) (tasks s) eid"
    by (simp add: find_task_by_event_linked[symmetric])
  with 3 assms(4) show ?case by simp
qed

lemma store_ok_grow:
  assumes "clock_mono e" and "store_ok A e s" and "tasks s' = tasks s" and "trace s' = tr @ trace s"
  shows "store_ok A e s'"
proof -
  have "not_future A e s'"
    by (rule not_future_grow[OF assms(1) _ _ assms(4)])
       (use assms(2,3) in \<open>auto simp: store_ok_def\<close>)
  then show ?thesis using assms(2,3) by (simp add: store_ok_def)
qed

lemma settled_grow:
  assumes "clock_mono e" and "settled A e uid ts0 s" and "tasks s' = tasks s"
    and "trace s' = tr @ trace s"
  shows "settled A e uid ts0 s'"
  using assms store_ok_grow[OF assms(1) _ assms(3,4)] by (simp add: settled_def)

lemma pull_event_settled:
  assumes "pull_event e u c ev (s, n) = Inr (s', n')" and "clock_mono e"
    and "settled A e (user_id u) ts0 s"
    and "\<forall>eid. ev_id ev = Some eid \<longrightarrow> eid \<noteq> [] \<longrightarrow> linked (user_id u) ts0 eid"
  shows "settled A e (user_id u) ts0 s'"
proof -
  have so: "store_ok A e s" and isy: "in_sync A (user_id u) (tasks s)"
    and l: "\<forall>eid. ev_id ev = Some eid \<longrightarrow> eid \<noteq> [] \<longrightarrow> linked (user_id u) (tasks s) eid"
    using assms(3,4) by (auto simp: settled_def)
  from pull_event_store_ok[OF assms(1,2) so] pull_event_in_sync[OF assms(1) so isy l] assms(3)
  show ?thesis by (auto simp: settled_def)
qed

lemma pull_events_store_ok:
  "pull_events e u c evs (s, n) = (r, (s', n')) \<Longrightarrow> clock_mono e \<Longrightarrow> store_ok A e s \<Longrightarrow>
   store_ok A e s'"
proof (induction evs arbitrary: s n)
  case Nil
  then show ?case by simp
next
  case (Cons ev evs)
  show ?case
  proof (cases "pull_event e u c ev (s, n)")
    case (Inl ex)
    with Cons.prems show ?thesis by simp
  next
    case (Inr sc1)
    obtain s1 n1 where sc1: "sc1 = (s1, n1)" by (cases sc1)
    from Inr sc1 Cons.prems have "pull_events e u c evs (s1, n1) = (r, (s', n'))" by simp
    moreover have "store_ok A e s1"
      using pull_event_store_ok[OF Inr[unfolded sc1] Cons.prems(2,3)] by simp
    ultimately show ?thesis using Cons.IH Cons.prems(2) by blast
  qed
qed

lemma pull_events_settled:
  "pull_events e u c evs (s, n) = (r, (s', n')) \<Longrightarrow> clock_mono e \<Longrightarrow>
   settled A e (user_id u) ts0 s \<Longrightarrow>
   \<forall>ev \<in> set evs. \<forall>eid. ev_id ev = Some eid \<longrightarrow> eid \<noteq> [] \<longrightarrow> linked (user_id u) ts0 eid \<Longrightarrow>
   settled A e (user_id u) ts0 s'"
proof (induction evs arbitrary: s n)
  case Nil
  then show ?case by simp
next
  case (Cons ev evs)
  show ?case
  proof (cases "pull_event e u c ev (s, n)")
    case (Inl ex)
    with Cons.prems show ?thesis by simp
  next
    case (Inr sc1)
    obtain s1 n1 where sc1: "sc1 = (s1, n1)" by (cases sc1)
    from Inr sc1 Cons.prems have "pull_events e u c evs (s1, n1) = (r, (s', n'))" by simp
    moreover have "settled A e (user_id u) ts0 s1"
      using pull_event_settled[OF Inr[unfolded sc1] Cons.prems(2,3)] Cons.prems(4) by simp
    ultimately show ?thesis using Cons.IH Cons.prems(2,4) by simp
  qed
qed

lemma pull_calendars_store_ok:
  "pull_calendars e u tmin tmax cals sc = (aborted, sc') \<Longrightarrow> clock_mono e \<Longrightarrow>
   (store_ok A e (fst sc) \<longrightarrow> store_ok A e (fst sc'))
   \<and> (lists_only_linked e (user_id u) ts0 \<longrightarrow> settled A e (user_id u) ts0 (fst sc) \<longrightarrow>
        settled A e (user_id u) ts0 (fst sc'))"
proof (induction cals arbitrary: sc)
  case Nil
  then show ?case by auto
next
  case (Cons cal cals)
  define s where "s = fst sc"
  define r where "r = env_list e (trace s) cal tmin tmax"
  define s1 where "s1 = s\<lparr> trace := ListEvents cal tmin tmax r # trace s \<rparr>"
  have l: "events_list e cal tmin tmax (fst sc) = (r, s1)"
    by (simp add: events_list_def Let_def r_def s1_def s_def)
  have g1: "tasks s1 = tasks s" "trace s1 = [ListEvents cal tmin tmax r] @ trace s"
    by (simp_all add: s1_def)
  obtain raised sc2 where h: "(case r of Inl ex \<Rightarrow> (Some ex, (s1, snd sc))
            | Inr events \<Rightarrow> pull_events e u cal events (s1, snd sc)) = (raised, sc2)"
    by (metis prod.collapse)
  obtain s2 n2 where sc2: "sc2 = (s2, n2)" by (cases sc2)
  have a2: "store_ok A e s \<Longrightarrow> store_ok A e s2"
  proof -
    assume "store_ok A e s"
    then have "store_ok A e s1" using store_ok_grow[OF Cons.prems(2) _ g1] by simp
    then show ?thesis using h sc2 pull_events_store_ok[OF _ Cons.prems(2)]
      by (cases r) auto
  qed
  have b2: "lists_only_linked e (user_id u) ts0 \<Longrightarrow> settled A e (user_id u) ts0 s
            \<Longrightarrow> settled A e (user_id u) ts0 s2"
  proof -
    assume ll: "lists_only_linked e (user_id u) ts0" and st: "settled A e (user_id u) ts0 s"
    have st1: "settled A e (user_id u) ts0 s1" using settled_grow[OF Cons.prems(2) st g1] .
    show ?thesis
    proof (cases r)
      case (Inl ex)
      with h sc2 st1 show ?thesis by simp
    next
      case (Inr events)
      with h sc2 have pe: "pull_events e u cal events (s1, snd sc) = (raised, (s2, n2))" by simp
      have "\<forall>ev \<in> set events. \<forall>eid. ev_id ev = Some eid \<longrightarrow> eid \<noteq> [] \<longrightarrow> linked (user_id u) ts0 eid"
        using ll Inr unfolding lists_only_linked_def r_def by blast
      then show ?thesis using pull_events_settled[OF pe Cons.prems(2) st1] by simp
    qed
  qed
  have same: "tasks s3 = tasks s2 \<Longrightarrow> trace s3 = trace s2 \<Longrightarrow>
       (store_ok A e s \<longrightarrow> store_ok A e s3)
       \<and> (lists_only_linked e (user_id u) ts0 \<longrightarrow> settled A e (user_id u) ts0 s \<longrightarrow>
            settled A e (user_id u) ts0 s3)" for s3
    using a2 b2 store_ok_grow[OF Cons.prems(2), where s = s2 and s' = s3 and tr = "[]" and A = A]
      settled_grow[OF Cons.prems(2), where uid = "user_id u" and ?ts0.0 = ts0 and s = s2
        and s' = s3 and tr = "[]" and A = A] by auto
  show ?case
  proof (cases raised)
    case None
    with Cons.prems l h have "pull_calendars e u tmin tmax cals sc2 = (aborted, sc')"
      by simp
    from Cons.IH[OF this Cons.prems(2)] a2 b2 sc2 show ?thesis by (auto simp: s_def)
  next
    case (Some ex)
    show ?thesis
    proof (cases "is_auth_error (exc_str ex)")
      case True
      with Cons.prems l h Some sc2 have "tasks (fst sc') = tasks s2" "trace (fst sc') = trace s2"
        by auto
      then show ?thesis using same[of "fst sc'"] by (simp add: s_def)
    next
      case False
      let ?s3 = "s2\<lparr> log := PullError cal ex # log s2 \<rparr>"
      from False Cons.prems l h Some sc2
      have "pull_calendars e u tmin tmax cals (?s3, n2) = (aborted, sc')" by simp
      from Cons.IH[OF this Cons.prems(2)] same[of ?s3] show ?thesis by (simp add: s_def)
    qed
  qed
qed

lemma push_task_cases:
  assumes "push_task e p c t (s, n) = (s', n')"
  shows "(\<exists>ex tr. log s' = PushError (task_id t) ex # log s \<and> tasks s' = tasks s
            \<and> trace s' = tr @ trace s \<and> n' = n)
       \<or> (\<exists>eid tr. log s' = PushedTask (task_id t) eid # log s
            \<and> trace s' = Now (env_utcnow e (tr @ trace s)) # tr @ trace s
            \<and> tasks s' = update_task (task_id t)
                 (push_bookkeeping eid c (env_utcnow e (tr @ trace s))) (tasks s)
            \<and> n' = n + 1)"
proof (cases "build_google_calendar_event (env_tz e) t p")
  case (Inl ex)
  with assms show ?thesis by (auto simp: push_task_def)
next
  case (Inr body)
  show ?thesis
  proof (cases "truthy_str (googleEventId t)")
    case True
    define r where "r = env_update e (trace s) (field_get_default (googleCalendarId t) c)
                          (the (googleEventId t)) body"
    define w where "w = UpdateEvent (field_get_default (googleCalendarId t) c)
                          (the (googleEventId t)) body r"
    have tr: "trace s' = [w] @ trace s \<or> trace s' = Now (env_utcnow e ([w] @ trace s)) # [w] @ trace s"
      using assms Inr True
      by (auto simp: push_task_def Let_def events_update_def utcnow_def r_def w_def
            split: sum.splits option.splits)
    show ?thesis
      using assms Inr True
      apply (simp add: push_task_def Let_def events_update_def utcnow_def r_def[symmetric]
                 w_def[symmetric] split: sum.splits option.splits)
      by (auto intro: exI[of _ "[w]"])
  next
    case False
    define r where "r = env_insert e (trace s) c body"
    define w where "w = InsertEvent c body r"
    show ?thesis
      using assms Inr False
      apply (simp add: push_task_def Let_def events_insert_def utcnow_def r_def[symmetric]
                 w_def[symmetric] split: sum.splits option.splits)
      by (auto intro: exI[of _ "[w]"])
  qed
qed

lemma classify_pushed:
  assumes "eid \<noteq> []" and "\<forall>ua. updatedAt t = Some ua \<longrightarrow> ua \<le> now"
  shows "classify (push_bookkeeping eid c now t) \<noteq> ToPush"
  using assms by (auto simp: classify_def push_bookkeeping_def split: option.splits)

lemma push_loop_log_grows:
  "\<exists>ens. log (fst (push_loop e p c ts sc)) = ens @ log (fst sc)"
  using push_loop_steps[of e p c ts sc] by blast

lemma push_loop_settles:
  "push_loop e p c rem (s, n) = (s', n') \<Longrightarrow> clock_mono e \<Longrightarrow> store_ok A e s \<Longrightarrow>
   distinct (map task_id rem) \<Longrightarrow>
   \<forall>x \<in> set (tasks s). user x = uid \<longrightarrow> classify x = ToPush
      \<longrightarrow> task_id x \<in> task_id ` set rem \<union> A \<Longrightarrow>
   \<forall>en \<in> set (take (length (log s') - length (log s)) (log s')). push_ok en \<Longrightarrow>
   store_ok A e s' \<and> in_sync A uid (tasks s')"
proof (induction rem arbitrary: s n)
  case Nil
  then show ?case by (auto simp: in_sync_def)
next
  case (Cons t rest)
  obtain s1 n1 where p1: "push_task e p c t (s, n) = (s1, n1)" by (cases "push_task e p c t (s, n)")
  have loop: "push_loop e p c rest (s1, n1) = (s', n')" using Cons.prems(1) p1 by simp
  obtain ens where ens: "log s' = ens @ log s1"
    using push_loop_log_grows[of e p c rest "(s1, n1)"] loop by auto
  from push_task_cases[OF p1] obtain en where en: "log s1 = en # log s"
    by auto
  have new: "take (length (log s') - length (log s)) (log s') = ens @ [en]"
    using ens en by simp
  have ok_en: "push_ok en" and ok_ens: "\<forall>x \<in> set ens. push_ok x"
    using Cons.prems(6) new by auto
  from push_task_cases[OF p1] en ok_en obtain eid tr where
      su: "en = PushedTask (task_id t) eid" "eid \<noteq> []"
          "trace s1 = Now (env_utcnow e (tr @ trace s)) # tr @ trace s"
          "tasks s1 = update_task (task_id t)
                 (push_bookkeeping eid c (env_utcnow e (tr @ trace s))) (tasks s)"
    by auto
  let ?now = "env_utcnow e (tr @ trace s)"
  let ?f = "push_bookkeeping eid c ?now"
  have d: "distinct (map task_id (tasks s))" and nf: "not_future A e s"
    using Cons.prems(3) by (auto simp: store_ok_def)
  have up: "tasks s1 = map (\<lambda>x. if task_id x = task_id t then ?f x else x) (tasks s)"
    using su(4) d by (simp add: update_task_distinct)
  have so1: "store_ok A e s1"
    unfolding store_ok_def
  proof
    show "distinct (map task_id (tasks s1))"
      using d su(4) by (simp add: map_task_id_update push_bookkeeping_simps)
    have t1: "trace s1 = (Now ?now # tr) @ trace s" using su(3) by simp
    show "not_future A e s1"
      by (rule not_future_grow[OF Cons.prems(2) nf _ t1])
         (auto simp: up push_bookkeeping_simps)
  qed
  have le: "\<forall>x \<in> set (tasks s). task_id x \<notin> A \<longrightarrow> (\<forall>ua. updatedAt x = Some ua \<longrightarrow> ua \<le> ?now)"
  proof (intro ballI allI impI)
    fix x ua assume "x \<in> set (tasks s)" "task_id x \<notin> A" "updatedAt x = Some ua"
    then have "ua \<le> env_utcnow e (trace s)" using nf by (auto simp: not_future_def)
    also have "\<dots> \<le> ?now" by (rule clock_mono_append[OF Cons.prems(2)])
    finally show "ua \<le> ?now" .
  qed
  have cand: "\<forall>x \<in> set (tasks s1). user x = uid \<longrightarrow> classify x = ToPush
                \<longrightarrow> task_id x \<in> task_id ` set rest \<union> A"
  proof (intro ballI impI)
    fix x assume x: "x \<in> set (tasks s1)" "user x = uid" "classify x = ToPush"
    from x(1) obtain y where y: "y \<in> set (tasks s)" "x = (if task_id y = task_id t then ?f y else y)"
      by (auto simp: up)
    show "task_id x \<in> task_id ` set rest \<union> A"
    proof (cases "task_id y = task_id t")
      case True
      then have xf: "x = ?f y" using y by simp
      show ?thesis
      proof (cases "task_id y \<in> A")
        case True
        then show ?thesis using xf by (simp add: push_bookkeeping_simps)
      next
        case False
        have "classify (?f y) \<noteq> ToPush"
          by (rule classify_pushed[OF su(2)]) (use le y(1) False in blast)
        with xf x(3) show ?thesis by simp
      qed
    next
      case False
      then have "x = y" using y by simp
      have "task_id y \<in> task_id ` set (t # rest) \<union> A"
        using Cons.prems(5)[rule_format, of y] x(2,3) y(1) \<open>x = y\<close> by simp
      with False \<open>x = y\<close> show ?thesis by auto
    qed
  qed
  have ok2: "\<forall>en \<in> set (take (length (log s') - length (log s1)) (log s')). push_ok en"
    using ens ok_ens by simp
  show ?case
    using Cons.IH[OF loop Cons.prems(2) so1 _ cand ok2] Cons.prems(4) by simp
qed

lemma pull_entry_ok: "is_revoked_entry en \<or> is_pull_error en \<Longrightarrow> push_ok en"
  by (cases en) auto

lemma pull_entry_none: "is_revoked_entry en \<or> is_pull_error en \<Longrightarrow> push_attempt_of en = None"
  by (cases en) auto

lemma pull_from_google_inv:
  assumes "pull_from_google e u cals s = (ab, (s', n))" and "clock_mono e"
  shows "(store_ok A e s \<longrightarrow> store_ok A e s')
       \<and> (lists_only_linked e (user_id u) ts0 \<longrightarrow> settled A e (user_id u) ts0 s \<longrightarrow>
            settled A e (user_id u) ts0 s')
       \<and> (\<exists>ens. log s' = ens @ log s
              \<and> (\<forall>en \<in> set ens. push_ok en \<and> push_attempt_of en = None))
       \<and> (\<exists>tr. trace s' = tr @ trace s \<and> filter is_write tr = [])"
proof -
  define s1 where "s1 = (case lastCalendarSync u of Some last_sync \<Rightarrow> s | None \<Rightarrow> snd (utcnow e s))"
  define time_min where "time_min = (case lastCalendarSync u of Some last_sync \<Rightarrow> last_sync - hours_us 1
            | None \<Rightarrow> fst (utcnow e s) - hours_us 24)"
  define s2 where "s2 = snd (utcnow e s1)"
  define time_max where "time_max = fst (utcnow e s1) + hours_us (24 * 90)"
  obtain ab3 sc3 where pc: "pull_calendars e u time_min time_max cals (s2, 0) = (ab3, sc3)"
    by (cases "pull_calendars e u time_min time_max cals (s2, 0)")
  define s4 where "s4 = (snd (utcnow e (fst sc3)))\<lparr> users := update_user (user_id u)
                (set_watermark (fst (utcnow e (fst sc3)))) (users (snd (utcnow e (fst sc3)))) \<rparr>"
  have unfold: "pull_from_google e u cals s = (if ab3 then (True, sc3) else (False, (s4, snd sc3)))"
    using pc
    by (auto simp: pull_from_google_def Let_def case_prod_beta s1_def time_min_def s2_def
          time_max_def s4_def split: option.splits)
  have pre: "tasks s2 = tasks s" "log s2 = log s"
    by (auto simp: s2_def s1_def utcnow_def Let_def split: option.splits)
  obtain tr0 where tr0: "trace s2 = tr0 @ trace s" "filter is_write tr0 = []"
  proof (cases "lastCalendarSync u")
    case None
    then have "trace s2 = [Now (env_utcnow e (Now (env_utcnow e (trace s)) # trace s)),
                           Now (env_utcnow e (trace s))] @ trace s"
      by (simp add: s2_def s1_def utcnow_def Let_def)
    then show ?thesis using that by simp
  next
    case (Some a)
    then have "trace s2 = [Now (env_utcnow e (trace s))] @ trace s"
      by (simp add: s2_def s1_def utcnow_def Let_def)
    then show ?thesis using that by simp
  qed
  have so2: "store_ok A e s \<Longrightarrow> store_ok A e s2"
    using store_ok_grow[OF assms(2) _ pre(1) tr0(1)] by simp
  have st2: "settled A e (user_id u) ts0 s \<Longrightarrow> settled A e (user_id u) ts0 s2"
    using settled_grow[OF assms(2) _ pre(1) tr0(1)] by simp
  from pull_calendars_store_ok[OF pc assms(2), where ?ts0.0 = ts0 and A = A] so2 st2
  have inv3: "store_ok A e s \<longrightarrow> store_ok A e (fst sc3)"
     "lists_only_linked e (user_id u) ts0 \<longrightarrow> settled A e (user_id u) ts0 s \<longrightarrow>
        settled A e (user_id u) ts0 (fst sc3)"
    by auto
  from pull_calendars_users[OF pc] obtain ens where ens: "log (fst sc3) = ens @ log s"
      "\<forall>en \<in> set ens. push_ok en \<and> push_attempt_of en = None"
    using pre(2) by (auto intro: pull_entry_ok pull_entry_none)
  from pull_calendars_trace[OF pc] obtain tr where tr: "trace (fst sc3) = tr @ trace s2"
      "filter is_write tr = []" by auto
  have g4: "tasks s4 = tasks (fst sc3)" "trace s4 = [Now (env_utcnow e (trace (fst sc3)))] @ trace (fst sc3)"
      "log s4 = log (fst sc3)"
    by (simp_all add: s4_def utcnow_def Let_def)
  show ?thesis
  proof (cases ab3)
    case True
    with unfold assms(1) have "s' = fst sc3" by auto
    with inv3 ens tr tr0 show ?thesis by auto
  next
    case False
    with unfold assms(1) have eq: "s' = s4" by auto
    have a: "store_ok A e s \<longrightarrow> store_ok A e s4"
      using inv3(1) store_ok_grow[OF assms(2) _ g4(1,2)] by blast
    have b: "lists_only_linked e (user_id u) ts0 \<longrightarrow> settled A e (user_id u) ts0 s \<longrightarrow>
        settled A e (user_id u) ts0 s4"
      using inv3(2) settled_grow[OF assms(2) _ g4(1,2)] by blast
    have c: "trace s4 = (Now (env_utcnow e (trace (fst sc3))) # tr @ tr0) @ trace s"
      using g4(2) tr(1) tr0(1) by simp
    have d: "filter is_write (Now (env_utcnow e (trace (fst sc3))) # tr @ tr0) = []"
      using tr(2) tr0(2) by simp
    show ?thesis using a b c d ens g4(3) unfolding eq by (metis (no_types))
  qed
qed

lemma get_credentials_keeps:
  "tasks (snd (get_credentials_from_user e u s)) = tasks s
   \<and> trace (snd (get_credentials_from_user e u s)) = trace s
   \<and> log (snd (get_credentials_from_user e u s)) = log s"
  by (simp add: credentials_resolved)

lemma first_run_settles:
  assumes "clock_mono e" and "store_ok A e s"
    and "sync_user_calendar e u s = (True, s1)"
    and "\<forall>en \<in> set (log_since s s1). push_ok en"
  shows "settled A e (user_id u) (tasks s1) s1"
proof -
  obtain creds s0 where g: "get_credentials_from_user e u s = (creds, s0)"
    by (cases "get_credentials_from_user e u s")
  have k0: "tasks s0 = tasks s" "trace s0 = trace s" "log s0 = log s"
    using get_credentials_keeps[of e u s] g by simp_all
  obtain ab sp k where pl: "pull_from_google e u (selected_or_primary u) s0 = (ab, (sp, k))"
    by (metis prod.collapse)
  obtain sq pushed where ps: "push_to_google e u (prefs_of u)
        (push_target (selected_or_primary u)) sp = (sq, pushed)"
    by (metis prod.collapse)
  have c: "creds \<noteq> None" "s1 = sq"
    using assms(3) g pl ps by (auto simp: sync_user_calendar_def split: option.splits if_splits)
  have so0: "store_ok A e s0"
    using store_ok_grow[OF assms(1,2), where s' = s0 and tr = "[]"] k0 by simp
  from pull_from_google_inv[OF pl assms(1), where ?ts0.0 = "[]" and A = A] so0 obtain ens0 where
      sp: "store_ok A e sp" "log sp = ens0 @ log s"
    using k0 by auto
  let ?cs = "tasks_to_push (find_user_tasks (user_id u) (tasks sp))"
  have loop: "push_loop e (prefs_of u) (push_target (selected_or_primary u)) ?cs (sp, 0) = (s1, pushed)"
    using ps c by (simp add: push_to_google_def Let_def)
  obtain ens1 where ens1: "log s1 = ens1 @ log sp"
    using push_loop_log_grows[of e "prefs_of u" "push_target (selected_or_primary u)" ?cs "(sp, 0)"]
      loop by auto
  have "log_since s s1 = rev (ens1 @ ens0)"
    using ens1 sp(2) by (simp add: log_since_def)
  then have ok1: "\<forall>en \<in> set ens1. push_ok en" using assms(4) by auto
  have ok: "\<forall>en \<in> set (take (length (log s1) - length (log sp)) (log s1)). push_ok en"
    using ens1 ok1 by simp
  have d: "distinct (map task_id ?cs)"
    using sp(1) by (simp add: store_ok_def tasks_to_push_def find_user_tasks_def distinct_map_filter)
  have cand: "\<forall>x \<in> set (tasks sp). user x = user_id u \<longrightarrow> classify x = ToPush
                \<longrightarrow> task_id x \<in> task_id ` set ?cs \<union> A"
    by (auto simp: tasks_to_push_def find_user_tasks_def)
  from push_loop_settles[OF loop assms(1) sp(1) d cand ok]
  show ?thesis by (simp add: settled_def linked_def)
qed

lemma push_loop_keeps_stamps:
  "length (tasks (fst (push_loop e p c ts sc))) = length (tasks (fst sc))
   \<and> map updatedAt (tasks (fst (push_loop e p c ts sc))) = map updatedAt (tasks (fst sc))"
proof (induction ts arbitrary: sc)
  case Nil
  then show ?case by simp
next
  case (Cons t ts)
  obtain s n where sc: "sc = (s, n)" by (cases sc)
  obtain s1 n1 where p1: "push_task e p c t (s, n) = (s1, n1)" by (cases "push_task e p c t (s, n)")
  have "length (tasks s1) = length (tasks s) \<and> map updatedAt (tasks s1) = map updatedAt (tasks s)"
    using push_task_cases[OF p1]
    by (auto simp: length_update_task map_updatedAt_update push_bookkeeping_simps)
  then show ?case using Cons.IH[of "(s1, n1)"] sc p1 by simp
qed

lemma settled_run:
  assumes "clock_mono e" and "settled A e (user_id u) ts0 s" and "lists_only_linked e (user_id u) ts0"
    and "finite A"
  shows "(\<forall>i. Some i \<in> set (map push_attempt_of (log_since s (snd (sync_user_calendar e u s))))
            \<longrightarrow> i \<in> A)
       \<and> length (filter is_write (trace_since s (snd (sync_user_calendar e u s)))) \<le> card A
       \<and> map updatedAt (tasks (snd (sync_user_calendar e u s))) = map updatedAt ts0"
proof -
  have g: "get_credentials_from_user e u s
             = ((if truthy_str (googleAccessToken u) then Some (make_credentials u) else None), s)"
    by (rule credentials_resolved)
  have u0: "map updatedAt (tasks s) = map updatedAt ts0" using assms(2) by (simp add: settled_def)
  show ?thesis
  proof (cases "truthy_str (googleAccessToken u)")
    case False
    then have "snd (sync_user_calendar e u s) = s" by (simp add: not_connected)
    then show ?thesis using u0 by (simp add: trace_since_def log_since_def)
  next
    case True
    obtain ab sp k where pl: "pull_from_google e u (selected_or_primary u) s = (ab, (sp, k))"
      by (metis prod.collapse)
    from pull_from_google_inv[OF pl assms(1), where ?ts0.0 = ts0 and A = A] assms(2,3) obtain tr ens where
        sp: "settled A e (user_id u) ts0 sp" "trace sp = tr @ trace s" "filter is_write tr = []"
            "log sp = ens @ log s" "\<forall>en \<in> set ens. push_attempt_of en = None"
      by auto
    let ?cs = "tasks_to_push (find_user_tasks (user_id u) (tasks sp))"
    let ?c = "push_target (selected_or_primary u)"
    let ?sq = "fst (push_loop e (prefs_of u) ?c ?cs (sp, 0))"
    have fin: "snd (sync_user_calendar e u s) = ?sq"
      using True pl g
      by (simp add: sync_user_calendar_def push_to_google_def Let_def case_prod_beta)
    obtain ens2 tr2 where st: "log ?sq = ens2 @ log sp"
        "map push_attempt_of (rev ens2) = map (\<lambda>t. Some (task_id t)) ?cs"
        "trace ?sq = tr2 @ trace sp"
        "length (filter is_write tr2) = length (filter (builds e (prefs_of u)) ?cs)"
      using push_loop_steps[of e "prefs_of u" ?c ?cs "(sp, 0)"] by auto
    have ids: "task_id ` set ?cs \<subseteq> A"
      using sp(1) by (auto simp: settled_def in_sync_def tasks_to_push_def find_user_tasks_def)
    have d: "distinct (map task_id ?cs)"
      using sp(1)
      by (simp add: settled_def store_ok_def tasks_to_push_def find_user_tasks_def
            distinct_map_filter)
    have "length ?cs = card (task_id ` set ?cs)"
      using d by (metis distinct_card length_map set_map)
    also have "\<dots> \<le> card A" using ids assms(4) by (rule card_mono[rotated])
    finally have len: "length ?cs \<le> card A" .
    have l: "log_since s ?sq = rev (ens2 @ ens)"
      using st(1) sp(4) by (simp add: log_since_def)
    have t: "trace_since s ?sq = rev (tr2 @ tr)"
      using st(3) sp(2) by (simp add: trace_since_def)
    have a: "\<forall>i. Some i \<in> set (map push_attempt_of (log_since s ?sq)) \<longrightarrow> i \<in> A"
    proof (intro allI impI)
      fix i assume "Some i \<in> set (map push_attempt_of (log_since s ?sq))"
      then have "Some i \<in> push_attempt_of ` set ens2 \<or> Some i \<in> push_attempt_of ` set ens"
        by (auto simp: l)
      then have "Some i \<in> push_attempt_of ` set ens2" using sp(5) by force
      then have "Some i \<in> set (map push_attempt_of (rev ens2))" by simp
      then have "i \<in> task_id ` set ?cs" unfolding st(2) by auto
      then show "i \<in> A" using ids by blast
    qed
    have b: "length (filter is_write (trace_since s ?sq)) \<le> card A"
    proof -
      have "length (filter is_write (trace_since s ?sq)) = length (filter is_write tr2)"
        using sp(3) by (simp add: t rev_filter[symmetric])
      also have "\<dots> \<le> length ?cs" unfolding st(4) by (rule length_filter_le)
      finally show ?thesis using len by simp
    qed
    have c: "map updatedAt (tasks ?sq) = map updatedAt ts0"
      using push_loop_keeps_stamps[of e "prefs_of u" ?c ?cs "(sp, 0)"] sp(1)
      by (simp add: settled_def)
    show ?thesis unfolding fin using a b c by simp
  qed
qed

text \<open>
  Claim C3, as amended. Let a first cycle succeed with every push it attempted ending in
  a stored, non-empty event id; let the clock never run backwards; let ids in the store
  be unique; and let the remote listing return only events that are linked to a task of
  the user in the store the first cycle left (nothing new appeared remotely). Then a
  second cycle run on that store creates no task and leaves every \<open>updatedAt\<close> as it
  was, and it attempts a push only for tasks that were stamped ahead of the clock when
  the first cycle started: the store held them then with an \<open>updatedAt\<close> later than the
  clock reading. It makes at most one remote insert or update for each of these, and
  none at all when there is no such task. It may still overwrite tasks from the remote
  side: the pull compares the event's time with \<open>updatedAt\<close>, which no cycle advances.
\<close>

theorem second_run_quiet:
  assumes "clock_mono e"
    and "distinct (map task_id (tasks s))"
    and "sync_user_calendar e u s = (True, s1)"
    and "\<forall>en \<in> set (log_since s s1). push_ok en"
    and "user_id u1 = user_id u"
    and "lists_only_linked e (user_id u) (tasks s1)"
  shows "(\<forall>i. Some i \<in> set (map push_attempt_of
                   (log_since s1 (snd (sync_user_calendar e u1 s1))))
            \<longrightarrow> i \<in> set (stamped_ahead e s))
       \<and> length (filter is_write (trace_since s1 (snd (sync_user_calendar e u1 s1))))
           \<le> length (stamped_ahead e s)
       \<and> length (tasks (snd (sync_user_calendar e u1 s1))) = length (tasks s1)
       \<and> map updatedAt (tasks (snd (sync_user_calendar e u1 s1))) = map updatedAt (tasks s1)"
proof -
  let ?A = "set (stamped_ahead e s)"
  have "not_future ?A e s"
    unfolding not_future_def
  proof (intro ballI allI impI)
    fix t ua assume t: "t \<in> set (tasks s)" "task_id t \<notin> ?A" "updatedAt t = Some ua"
    show "ua \<le> env_utcnow e (trace s)"
    proof (rule ccontr)
      assume "\<not> ua \<le> env_utcnow e (trace s)"
      then have "task_id t \<in> ?A" using t(1,3) by (force simp: stamped_ahead_def)
      with t(2) show False by simp
    qed
  qed
  then have so: "store_ok ?A e s" using assms(2) by (simp add: store_ok_def)
  have st: "settled ?A e (user_id u1) (tasks s1) s1"
    using first_run_settles[OF assms(1) so assms(3,4)] assms(5) by simp
  have ll: "lists_only_linked e (user_id u1) (tasks s1)" using assms(5,6) by simp
  have c: "card ?A \<le> length (stamped_ahead e s)" by (rule card_length)
  from settled_run[OF assms(1) st ll] c
  show ?thesis by (metis (no_types, lifting) List.finite_set length_map order_trans)
qed

lemma pulled_task_simps:
  "task_id (pulled_task now) = 7" "user (pulled_task now) = 1"
  "googleEventId (pulled_task now) = Some ''ev-7''"
  "updatedAt (pulled_task now) = Some at_0730" "lastSyncedAt (pulled_task now) = Some now"
  "dueDate (pulled_task now) = Some example_due"
  "status (pulled_task now) = Some ''scheduled''"
  "syncToCalendar (pulled_task now) = Some True"
  "pull_overwrite remote_edit example_due None now' (pulled_task now) = pulled_task now'"
  "pull_overwrite remote_edit example_due None now stale_task = pulled_task now"
  by (simp_all add: pulled_task_def pull_overwrite_def stale_task_def example_task_def)

lemma ahead_task_simps:
  "task_id ahead_task = 8" "user ahead_task = 1" "googleEventId ahead_task = Some ''ev-8''"
  "updatedAt ahead_task = Some at_1100" "lastSyncedAt ahead_task = Some at_0700"
  "googleCalendarId ahead_task = Val ''work''"
  "dueDate ahead_task = Some example_date"
  "status ahead_task = Some ''scheduled''"
  "syncToCalendar ahead_task = Some True"
  "build_google_calendar_event tzs ahead_task p = Inr (all_day_body ahead_task)"
  "push_bookkeeping ''ev-8'' ''work'' now ahead_task = pushed_task now"
proof -
  show "build_google_calendar_event tzs ahead_task p = Inr (all_day_body ahead_task)"
    by (rule build_all_day_body) (simp_all add: ahead_task_def example_task_def)
qed (simp_all add: ahead_task_def example_task_def pushed_task_def)

lemma pushed_task_simps:
  "task_id (pushed_task now) = 8" "user (pushed_task now) = 1"
  "googleEventId (pushed_task now) = Some ''ev-8''"
  "updatedAt (pushed_task now) = Some at_1100" "lastSyncedAt (pushed_task now) = Some now"
  "googleCalendarId (pushed_task now) = Val ''work''"
  "dueDate (pushed_task now) = Some example_date"
  "status (pushed_task now) = Some ''scheduled''"
  "syncToCalendar (pushed_task now) = Some True"
  "build_google_calendar_event tzs (pushed_task now) p = Inr (all_day_body ahead_task)"
  "push_bookkeeping ''ev-8'' ''work'' now' (pushed_task now) = pushed_task now'"
proof -
  have "build_google_calendar_event tzs (pushed_task now) p = Inr (all_day_body (pushed_task now))"
    by (rule build_all_day_body)
       (simp_all add: pushed_task_def push_bookkeeping_def ahead_task_def example_task_def)
  moreover have "all_day_body (pushed_task now) = all_day_body ahead_task"
    by (simp add: all_day_body_def pushed_task_def push_bookkeeping_def event_description_def
          reminders_of_def ahead_task_def example_task_def)
  ultimately show "build_google_calendar_event tzs (pushed_task now) p = Inr (all_day_body ahead_task)"
    by simp
qed (simp_all add: pushed_task_def push_bookkeeping_def ahead_task_def example_task_def)

lemmas stamps = at_0700_def at_0730_def at_0800_def at_0900_def at_1100_def

lemma first_run_eval:
  "first_run =
     (True, \<lparr> users = [synced_user (at_0900 + 4)],
             tasks = [pulled_task (at_0900 + 2), pushed_task (at_0900 + 6)],
             lists = [], trace = first_trace, log = [PushedTask 8 ''ev-8''] \<rparr>)"
  by (simp add: first_run_def first_trace_def ahead_update_def morning_state_def run_defs
        classify_def remote_edit_simps stale_task_simps pulled_task_simps ahead_task_simps
        pushed_task_simps user_simps morning_env_simps stamps)

lemma second_run_eval:
  "second_run =
     (True, \<lparr> users = [synced_user (at_0900 + 11)],
             tasks = [pulled_task (at_0900 + 9), pushed_task (at_0900 + 13)],
             lists = [], trace = second_trace @ first_trace,
             log = [PushedTask 8 ''ev-8'', PushedTask 8 ''ev-8''] \<rparr>)"
  by (simp add: second_run_def first_run_eval first_trace_def second_trace_def ahead_update_def
        run_defs classify_def remote_edit_simps pulled_task_simps
        pushed_task_simps user_simps morning_env_simps stamps)

lemma second_pull_eval:
  "snd (snd (pull_from_google morning_env (synced_user (at_0900 + 4)) [''work'', ''home'']
               (snd first_run))) = 1"
  by (simp add: first_run_eval first_trace_def ahead_update_def run_defs classify_def
        remote_edit_simps pulled_task_simps pushed_task_simps user_simps morning_env_simps stamps)

lemma second_run_since:
  "trace_since (snd first_run) (snd second_run) = rev second_trace"
  "log_since (snd first_run) (snd second_run) = [PushedTask 8 ''ev-8'']"
  by (simp_all add: trace_since_def log_since_def first_run_eval second_run_eval
        first_trace_def second_trace_def)

text \<open>
  The claim as stated promises no push and no pull-overwrite on the second run. Here the
  store holds a task that is older than its remote event and a linked task whose
  \<open>updatedAt\<close> was written by a clock two hours ahead of the scheduler's. The first run
  overwrites the one and pushes the other; the second run, given the user record the
  first one stored and the same remote listing, overwrites the one again (the pull
  compares with \<open>updatedAt\<close>, which no run advances) and pushes the other again (its
  \<open>updatedAt\<close> is still later than the \<open>lastSyncedAt\<close> the first push stamped).
\<close>

theorem second_run_quiet_counterexample:
  "fst first_run
   \<and> users (snd first_run) = [synced_user (at_0900 + 4)]
   \<and> log (snd first_run) = [PushedTask 8 ''ev-8'']
   \<and> map lastSyncedAt (tasks (snd first_run)) = [Some (at_0900 + 2), Some (at_0900 + 6)]
   \<and> snd (snd (pull_from_google morning_env (synced_user (at_0900 + 4)) [''work'', ''home'']
                 (snd first_run))) = 1
   \<and> filter is_write (trace_since (snd first_run) (snd second_run)) = [ahead_update]
   \<and> map lastSyncedAt (tasks (snd second_run)) = [Some (at_0900 + 9), Some (at_0900 + 13)]"
proof (intro conjI)
  show "snd (snd (pull_from_google morning_env (synced_user (at_0900 + 4)) [''work'', ''home'']
                 (snd first_run))) = 1"
    by (rule second_pull_eval)
  show "filter is_write (trace_since (snd first_run) (snd second_run)) = [ahead_update]"
    by (simp add: second_run_since second_trace_def ahead_update_def)
qed (simp_all add: first_run_eval second_run_eval pulled_task_simps pushed_task_simps)

lemma morning_env_mono: "clock_mono morning_env"
  by (simp add: clock_mono_def morning_env_simps)

lemma morning_env_linked:
  "lists_only_linked morning_env (user_id (synced_user w)) [pulled_task now, pushed_task now']"
  by (auto simp: lists_only_linked_def morning_env_simps linked_def remote_edit_simps
        pulled_task_simps user_simps split: if_splits)

theorem second_run_quiet_witness:
  "clock_mono morning_env
   \<and> distinct (map task_id (tasks (morning_state [stale_task, ahead_task])))
   \<and> sync_user_calendar morning_env (synced_user at_0700)
         (morning_state [stale_task, ahead_task]) = (True, snd first_run)
   \<and> log_since (morning_state [stale_task, ahead_task]) (snd first_run) = [PushedTask 8 ''ev-8'']
   \<and> push_ok (PushedTask 8 ''ev-8'')
   \<and> user_id (synced_user (at_0900 + 4)) = user_id (synced_user at_0700)
   \<and> lists_only_linked morning_env (user_id (synced_user at_0700)) (tasks (snd first_run))
   \<and> stamped_ahead morning_env (morning_state [stale_task, ahead_task]) = [8]
   \<and> map push_attempt_of (log_since (snd first_run)
         (snd (sync_user_calendar morning_env (synced_user (at_0900 + 4)) (snd first_run))))
       = [Some 8]
   \<and> length (filter is_write (trace_since (snd first_run)
         (snd (sync_user_calendar morning_env (synced_user (at_0900 + 4)) (snd first_run)))))
       \<le> 1
   \<and> length (tasks (snd (sync_user_calendar morning_env (synced_user (at_0900 + 4))
         (snd first_run)))) = 2
   \<and> map updatedAt (tasks (snd (sync_user_calendar morning_env (synced_user (at_0900 + 4))
         (snd first_run)))) = [Some at_0730, Some at_1100]"
proof -
  let ?s = "morning_state [stale_task, ahead_task]"
  have h2: "distinct (map task_id (tasks ?s))"
    by (simp add: morning_state_def stale_task_simps ahead_task_simps)
  have h3: "sync_user_calendar morning_env (synced_user at_0700) ?s = (True, snd first_run)"
    using first_run_eval by (simp add: first_run_def)
  have l: "log_since ?s (snd first_run) = [PushedTask 8 ''ev-8'']"
    by (simp add: log_since_def first_run_eval morning_state_def)
  have h4: "\<forall>en \<in> set (log_since ?s (snd first_run)). push_ok en"
    by (simp add: l)
  have h5: "user_id (synced_user (at_0900 + 4)) = user_id (synced_user at_0700)"
    by (simp add: user_simps)
  have h6: "lists_only_linked morning_env (user_id (synced_user at_0700)) (tasks (snd first_run))"
    by (simp add: first_run_eval morning_env_linked)
  have a: "stamped_ahead morning_env ?s = [8]"
    by (simp add: stamped_ahead_def morning_state_def stale_task_simps ahead_task_simps
          morning_env_simps stamps)
  have t: "tasks (snd first_run) = [pulled_task (at_0900 + 2), pushed_task (at_0900 + 6)]"
    by (simp add: first_run_eval)
  have r: "snd (sync_user_calendar morning_env (synced_user (at_0900 + 4)) (snd first_run))
             = snd second_run"
    by (simp add: second_run_def)
  show ?thesis
    using second_run_quiet[OF morning_env_mono h2 h3 h4 h5 h6] morning_env_mono h2 h3 l h5 h6 a
    by (simp add: t r second_run_since pulled_task_simps pushed_task_simps)
qed


end
